theory Spec2Isabelle
  imports Complex_Main "HOL-Library.Monad_Syntax" "HOL-Library.Sublist" "HOL-Library.Extended_Nat"
begin

section \<open>Pipeline network planner: Union-Find, graph and Kruskal solver\<close>

text \<open>
  A shallow embedding of \<^verbatim>\<open>script.js\<close>: the classes \<^verbatim>\<open>UnionFind\<close>, \<^verbatim>\<open>Graph\<close> and the
  state-changing part of \<^verbatim>\<open>PipelineApp\<close>. Vertex identifiers are integers. Coordinates,
  distances, weights and costs are JavaScript Numbers, and every operation on them is the
  IEEE 754 binary64 operation: the exact result, rounded. Methods that mutate \<^verbatim>\<open>this\<close>
  take the object and return it updated. Drawing, status text and console output are left
  out.
\<close>

subsection \<open>JavaScript values stored in the Union-Find arrays\<close>

text \<open>
  \<^verbatim>\<open>parent\<close> and \<^verbatim>\<open>rank\<close> are JavaScript arrays. Reading a missing property yields
  \<^verbatim>\<open>undefined\<close> and nothing is ever raised, so an array is modelled as a total
  function from property keys to values that is \<open>Undefined\<close> wherever nothing was stored.
  Keys are the values used as subscripts (an integer, \<^verbatim>\<open>undefined\<close> or \<^verbatim>\<open>NaN\<close>; they
  are turned into distinct property names). The array's \<^verbatim>\<open>length\<close> is never read by
  the class and is not modelled.
\<close>

datatype jsval = Num int | Undefined | NaN

text \<open>\<^verbatim>\<open>a === b\<close>: \<^verbatim>\<open>NaN\<close> is not equal to itself.\<close>

definition strict_eq :: "jsval \<Rightarrow> jsval \<Rightarrow> bool" where
  "strict_eq a b = (a = b \<and> a \<noteq> NaN)"

text \<open>\<^verbatim>\<open>a < b\<close>: false as soon as one side is not a number (\<^verbatim>\<open>undefined\<close> converts to \<^verbatim>\<open>NaN\<close>).\<close>

fun js_lt :: "jsval \<Rightarrow> jsval \<Rightarrow> bool" where
  "js_lt (Num a) (Num b) = (a < b)"
| "js_lt _ _ = False"

text \<open>The value stored by \<^verbatim>\<open>a++\<close>.\<close>

fun js_incr :: "jsval \<Rightarrow> jsval" where
  "js_incr (Num a) = Num (a + 1)"
| "js_incr _ = NaN"

subsection \<open>class UnionFind\<close>

record UnionFind =
  parent :: "jsval \<Rightarrow> jsval"
  rank :: "jsval \<Rightarrow> jsval"

definition UnionFind_new :: "nat \<Rightarrow> UnionFind" where
  "UnionFind_new n =
     \<lparr>parent = (\<lambda>k. case k of Num i \<Rightarrow> if 0 \<le> i \<and> i < int n then Num i else Undefined
                         | _ \<Rightarrow> Undefined),
      rank = (\<lambda>k. case k of Num i \<Rightarrow> if 0 \<le> i \<and> i < int n then Num 0 else Undefined
                       | _ \<Rightarrow> Undefined)\<rparr>"

text \<open>
  \<^verbatim>\<open>find(x)\<close> is recursive and does not return a value on a cyclic \<^verbatim>\<open>parent\<close> array
  (the recursion never ends, until the call stack is exhausted); the result \<open>None\<close> stands
  for such a call. The assignment \<^verbatim>\<open>this.parent[x] = this.find(...)\<close> is made on the array
  as the recursive call left it.
\<close>

partial_function (option) find_uf :: "UnionFind \<Rightarrow> jsval \<Rightarrow> (jsval \<times> UnionFind) option" where
  "find_uf u x =
     (if strict_eq (parent u x) x then Some (x, u)
      else do {
        (r, u') \<leftarrow> find_uf u (parent u x);
        Some (r, u'\<lparr>parent := (parent u')(x := r)\<rparr>)
      })"

declare find_uf.simps [code]

definition union_uf :: "UnionFind \<Rightarrow> jsval \<Rightarrow> jsval \<Rightarrow> (bool \<times> UnionFind) option" where
  "union_uf u x y = do {
     (rootX, u1) \<leftarrow> find_uf u x;
     (rootY, u2) \<leftarrow> find_uf u1 y;
     if strict_eq rootX rootY then Some (False, u2)
     else if js_lt (rank u2 rootX) (rank u2 rootY) then
       Some (True, u2\<lparr>parent := (parent u2)(rootX := rootY)\<rparr>)
     else if js_lt (rank u2 rootY) (rank u2 rootX) then
       Some (True, u2\<lparr>parent := (parent u2)(rootY := rootX)\<rparr>)
     else
       Some (True, u2\<lparr>parent := (parent u2)(rootY := rootX),
                      rank := (rank u2)(rootX := js_incr (rank u2 rootX))\<rparr>)
   }"

subsection \<open>JavaScript Numbers: IEEE 754 binary64\<close>

text \<open>
  A Number is modelled by its value: a finite real, an infinity or \<^verbatim>\<open>NaN\<close>. The sign of zero
  is not distinguished; no operation below depends on it.
\<close>

datatype number = Fin real | PosInf | NegInf | NotNum

text \<open>The nearest integer, ties to the even one.\<close>

definition rne :: "real \<Rightarrow> int" where
  "rne r = (let f = \<lfloor>r\<rfloor> in
              if r - of_int f < 1 / 2 then f
              else if 1 / 2 < r - of_int f then f + 1
              else if even f then f else f + 1)"

text \<open>
  The binary64 values around \<open>x \<noteq> 0\<close> are the multiples of 2 to the power \<open>ulp_exp x\<close>:
  53 significant bits within the binade of \<open>x\<close> (its power of 2), and the spacing
  \<^verbatim>\<open>2^-1074\<close> of the subnormal numbers below \<^verbatim>\<open>2^-1022\<close>. \<open>rnd x\<close> is the nearest of them,
  ties to the even significand, with the exponent not yet bounded above.
\<close>

definition binade :: "real \<Rightarrow> int" where
  "binade x = \<lfloor>log 2 \<bar>x\<bar>\<rfloor>"

definition ulp_exp :: "real \<Rightarrow> int" where
  "ulp_exp x = max (binade x) (- 1022) - 52"

definition rnd :: "real \<Rightarrow> real" where
  "rnd x = (if x = 0 then 0 else of_int (rne (x / 2 powi ulp_exp x)) * 2 powi ulp_exp x)"

text \<open>
  The Number nearest to the real \<open>x\<close>: an infinity when the rounded magnitude reaches
  \<^verbatim>\<open>2^1024\<close>, the first such value above the largest finite Number.
\<close>

definition huge :: real where
  "huge = 2 powi 1024"

definition fl :: "real \<Rightarrow> number" where
  "fl x = (let y = rnd x in
             if huge \<le> y then PosInf else if y \<le> - huge then NegInf else Fin y)"

text \<open>
  The operators \<^verbatim>\<open>-a\<close>, \<^verbatim>\<open>a + b\<close>, \<^verbatim>\<open>a - b\<close>, \<^verbatim>\<open>a * b\<close>, \<^verbatim>\<open>a < b\<close> and the functions
  \<^verbatim>\<open>Math.sqrt\<close> (the correctly rounded square root) and \<^verbatim>\<open>Math.round\<close> (\<open>\<lfloor>a + 1/2\<rfloor>\<close>, computed
  exactly).
\<close>

fun neg64 :: "number \<Rightarrow> number" where
  "neg64 (Fin a) = Fin (- a)"
| "neg64 PosInf = NegInf"
| "neg64 NegInf = PosInf"
| "neg64 NotNum = NotNum"

fun add64 :: "number \<Rightarrow> number \<Rightarrow> number" where
  "add64 (Fin a) (Fin b) = fl (a + b)"
| "add64 NotNum b = NotNum"
| "add64 a NotNum = NotNum"
| "add64 PosInf NegInf = NotNum"
| "add64 NegInf PosInf = NotNum"
| "add64 PosInf b = PosInf"
| "add64 a PosInf = PosInf"
| "add64 NegInf b = NegInf"
| "add64 a NegInf = NegInf"

definition sub64 :: "number \<Rightarrow> number \<Rightarrow> number" where
  "sub64 a b = add64 a (neg64 b)"

fun mul64 :: "number \<Rightarrow> number \<Rightarrow> number" where
  "mul64 (Fin a) (Fin b) = fl (a * b)"
| "mul64 NotNum b = NotNum"
| "mul64 a NotNum = NotNum"
| "mul64 PosInf (Fin b) = (if b = 0 then NotNum else if 0 < b then PosInf else NegInf)"
| "mul64 NegInf (Fin b) = (if b = 0 then NotNum else if 0 < b then NegInf else PosInf)"
| "mul64 (Fin a) PosInf = (if a = 0 then NotNum else if 0 < a then PosInf else NegInf)"
| "mul64 (Fin a) NegInf = (if a = 0 then NotNum else if 0 < a then NegInf else PosInf)"
| "mul64 PosInf PosInf = PosInf"
| "mul64 NegInf NegInf = PosInf"
| "mul64 PosInf NegInf = NegInf"
| "mul64 NegInf PosInf = NegInf"

fun sqrt64 :: "number \<Rightarrow> number" where
  "sqrt64 (Fin a) = (if a < 0 then NotNum else fl (sqrt a))"
| "sqrt64 PosInf = PosInf"
| "sqrt64 NegInf = NotNum"
| "sqrt64 NotNum = NotNum"

fun less64 :: "number \<Rightarrow> number \<Rightarrow> bool" where
  "less64 (Fin a) (Fin b) = (a < b)"
| "less64 NotNum b = False"
| "less64 a NotNum = False"
| "less64 a NegInf = False"
| "less64 PosInf b = False"
| "less64 NegInf b = True"
| "less64 a PosInf = True"

fun Math_round :: "number \<Rightarrow> number" where
  "Math_round (Fin a) = Fin (of_int \<lfloor>a + 1 / 2\<rfloor>)"
| "Math_round a = a"

subsection \<open>class Graph\<close>

text \<open>
  The coordinates of a vertex are finite Numbers (positions of the mouse on the canvas);
  what is proved for all real coordinates holds for the binary64 ones.
  The weight of an edge is a value of \<^verbatim>\<open>Math.round(Math.sqrt(...))\<close>, which is a natural
  number or \<^verbatim>\<open>Infinity\<close> (lemma \<open>weight_range\<close> below); it is kept as an extended natural
  number. The comparator \<^verbatim>\<open>a.weight - b.weight\<close> of \<^verbatim>\<open>findMST\<close> is negative, zero or
  positive as the order of these values (the difference of two infinite weights is \<^verbatim>\<open>NaN\<close>,
  which the sort takes as zero).
\<close>

record vertex =
  vx :: real
  vy :: real

record edge =
  v1 :: int
  v2 :: int
  weight :: enat

fun to_weight :: "number \<Rightarrow> enat" where
  "to_weight (Fin a) = enat (nat \<lfloor>a\<rfloor>)"
| "to_weight PosInf = \<infinity>"
| "to_weight NegInf = 0"
| "to_weight NotNum = 0"

fun of_weight :: "enat \<Rightarrow> number" where
  "of_weight (enat n) = Fin (of_nat n)"
| "of_weight \<infinity> = PosInf"

record Graph =
  vertices :: "vertex list"
  edges :: "edge list"

definition Graph_new :: Graph where
  "Graph_new = \<lparr>vertices = [], edges = []\<rparr>"

definition MIN_DISTANCE :: real where
  "MIN_DISTANCE = 30"

text \<open>\<^verbatim>\<open>addVertex(x, y)\<close> returns the new index, or \<open>-1\<close> when the position is too close.\<close>

definition addVertex :: "Graph \<Rightarrow> real \<Rightarrow> real \<Rightarrow> int \<times> Graph" where
  "addVertex g px py =
     (let tooClose = list_ex (\<lambda>v. let dx = sub64 (Fin (vx v)) (Fin px);
                                       dy = sub64 (Fin (vy v)) (Fin py)
                                   in less64 (sqrt64 (add64 (mul64 dx dx) (mul64 dy dy)))
                                        (Fin MIN_DISTANCE)) (vertices g)
      in if tooClose then (- 1, g)
         else (let g' = g\<lparr>vertices := vertices g @ [\<lparr>vx = px, vy = py\<rparr>]\<rparr>
               in (int (length (vertices g')) - 1, g')))"

text \<open>
  \<^verbatim>\<open>addEdge(v1, v2)\<close> returns a boolean. With integer identifiers that passed the
  validation both vertices exist, so the body of the \<^verbatim>\<open>try\<close> block cannot throw and the
  \<^verbatim>\<open>catch\<close> branch has no counterpart here.
\<close>

definition addEdge :: "Graph \<Rightarrow> int \<Rightarrow> int \<Rightarrow> bool \<times> Graph" where
  "addEdge g a b =
     (if a = b \<or> a < 0 \<or> b < 0 \<or>
         a \<ge> int (length (vertices g)) \<or> b \<ge> int (length (vertices g))
      then (False, g)
      else
        let exists = list_ex (\<lambda>e. (v1 e = a \<and> v2 e = b) \<or> (v1 e = b \<and> v2 e = a)) (edges g)
        in if \<not> exists then
             (let vertex1 = vertices g ! nat a;
                  vertex2 = vertices g ! nat b;
                  dx = sub64 (Fin (vx vertex1)) (Fin (vx vertex2));
                  dy = sub64 (Fin (vy vertex1)) (Fin (vy vertex2));
                  w = Math_round (sqrt64 (add64 (mul64 dx dx) (mul64 dy dy)))
              in (True, g\<lparr>edges := edges g @
                           [\<lparr>v1 = min a b, v2 = max a b, weight = to_weight w\<rparr>]\<rparr>))
           else (False, g))"

text \<open>
  The \<^verbatim>\<open>for ... of\<close> loop of \<^verbatim>\<open>findMST\<close> over the sorted edges; \<open>n\<close> is
  \<^verbatim>\<open>this.vertices.length\<close>, \<open>acc\<close> is \<^verbatim>\<open>mstEdges\<close>.
\<close>

fun mst_loop :: "nat \<Rightarrow> edge list \<Rightarrow> UnionFind \<Rightarrow> edge list \<Rightarrow> edge list option" where
  "mst_loop n [] uf acc = Some acc"
| "mst_loop n (e # rest) uf acc = do {
     (r1, uf1) \<leftarrow> find_uf uf (Num (v1 e));
     (r2, uf2) \<leftarrow> find_uf uf1 (Num (v2 e));
     if \<not> strict_eq r1 r2 then do {
       (merged, uf3) \<leftarrow> union_uf uf2 (Num (v1 e)) (Num (v2 e));
       let acc' = acc @ [e] in
       if int (length acc') = int n - 1 then Some acc'
       else mst_loop n rest uf3 acc'
     } else mst_loop n rest uf2 acc
   }"

text \<open>
  \<^verbatim>\<open>Array.prototype.sort\<close> is stable (ECMAScript 2019) and the comparator orders by
  weight, so the sorted copy is the stable sort by the key \<open>weight\<close>.
\<close>

definition findMST :: "Graph \<Rightarrow> edge list option" where
  "findMST g =
     (if length (vertices g) < 2 then Some []
      else mst_loop (length (vertices g)) (sort_key weight (edges g))
             (UnionFind_new (length (vertices g))) [])"

subsection \<open>class PipelineApp: the state changed by the event handlers\<close>

datatype mode = AddBuilding | AddConnection

record PipelineApp =
  graph :: Graph
  selectedVertex :: "nat option"
  hoveredVertex :: "nat option"
  lastMouseX :: real
  lastMouseY :: real
  mode :: mode
  mstEdges :: "edge list"
  totalCost :: number

definition PipelineApp_new :: PipelineApp where
  "PipelineApp_new =
     \<lparr>graph = Graph_new, selectedVertex = None, hoveredVertex = None,
      lastMouseX = 0, lastMouseY = 0, mode = AddBuilding, mstEdges = [], totalCost = Fin 0\<rparr>"

text \<open>\<^verbatim>\<open>buildingHeight / 2\<close> is the rounded quotient; \<^verbatim>\<open>maxDistance\<close> has its default, 40.\<close>

definition findClosestVertex :: "Graph \<Rightarrow> real \<Rightarrow> real \<Rightarrow> nat option" where
  "findClosestVertex g px py =
     snd (fold (\<lambda>(vertex, index) (closestDist, closestIndex).
                  let buildingHeight = 32;
                      baseY = add64 (Fin (vy vertex)) (fl (buildingHeight / 2));
                      dx = sub64 (Fin (vx vertex)) (Fin px);
                      dy = sub64 baseY (Fin py);
                      distanceSq = add64 (mul64 dx dx) (mul64 dy dy)
                  in if less64 distanceSq closestDist then (distanceSq, Some index)
                     else (closestDist, closestIndex))
            (zip (vertices g) [0..<length (vertices g)])
            (mul64 (Fin 40) (Fin 40), None))"

text \<open>\<open>px\<close>, \<open>py\<close> are the click's coordinates relative to the canvas.\<close>

definition handleCanvasClick :: "PipelineApp \<Rightarrow> real \<Rightarrow> real \<Rightarrow> PipelineApp" where
  "handleCanvasClick s px py =
     (if mode s = AddBuilding then
        (let (vertexIndex, g') = addVertex (graph s) px py in s\<lparr>graph := g'\<rparr>)
      else if mode s = AddConnection then
        (case findClosestVertex (graph s) px py of
           None \<Rightarrow> s
         | Some vertexIndex \<Rightarrow>
             (case selectedVertex s of
                None \<Rightarrow> s\<lparr>selectedVertex := Some vertexIndex\<rparr>
              | Some sel \<Rightarrow>
                  if sel = vertexIndex then s\<lparr>selectedVertex := None\<rparr>
                  else
                    let existingEdge =
                          list_ex (\<lambda>e. (v1 e = int sel \<and> v2 e = int vertexIndex) \<or>
                                        (v1 e = int vertexIndex \<and> v2 e = int sel))
                            (edges (graph s))
                    in if existingEdge then s\<lparr>selectedVertex := None\<rparr>
                       else
                         (let (ok, g') = addEdge (graph s) (int sel) (int vertexIndex)
                          in if ok then s\<lparr>graph := g', mstEdges := [], selectedVertex := None\<rparr>
                             else s\<lparr>graph := g', selectedVertex := None\<rparr>)))
      else s)"

datatype event =
    CanvasClick real real
  | MouseMove real real
  | ClickAddBuilding
  | ClickAddConnection
  | ClickFindMST
  | ClickReset

text \<open>One event handler run to completion; \<open>None\<close> only if \<^verbatim>\<open>findMST\<close> does not return.\<close>

fun step :: "PipelineApp \<Rightarrow> event \<Rightarrow> PipelineApp option" where
  "step s (CanvasClick px py) = Some (handleCanvasClick s px py)"
| "step s (MouseMove px py) =
     Some (s\<lparr>lastMouseX := px, lastMouseY := py,
             hoveredVertex := findClosestVertex (graph s) px py\<rparr>)"
| "step s ClickAddBuilding = Some (s\<lparr>mode := AddBuilding, selectedVertex := None\<rparr>)"
| "step s ClickAddConnection =
     (if length (vertices (graph s)) < 2 then Some s
      else Some (s\<lparr>mode := AddConnection, selectedVertex := None\<rparr>))"
| "step s ClickFindMST =
     (if length (vertices (graph s)) < 2 then Some s
      else do {
        m \<leftarrow> findMST (graph s);
        Some (s\<lparr>mstEdges := m,
                totalCost := foldl (\<lambda>sum e. add64 sum (of_weight (weight e))) (Fin 0) m\<rparr>)
      })"
| "step s ClickReset =
     Some (s\<lparr>graph := Graph_new, mstEdges := [], totalCost := Fin 0,
             mode := AddBuilding, selectedVertex := None\<rparr>)"

subsection \<open>Notions used to state the properties\<close>

text \<open>Element \<open>i\<close> is one of the \<open>n\<close> elements \<open>0 .. n - 1\<close>.\<close>

definition in_range :: "nat \<Rightarrow> int \<Rightarrow> bool" where
  "in_range n i = (0 \<le> i \<and> i < int n)"

fun num_val :: "jsval \<Rightarrow> int" where
  "num_val (Num i) = i"
| "num_val _ = - 1"

text \<open>Parent and rank of element \<open>i\<close> as integers (\<open>-1\<close> when the entry is not a number).\<close>

definition par :: "UnionFind \<Rightarrow> int \<Rightarrow> int" where
  "par u i = num_val (parent u (Num i))"

definition rk :: "UnionFind \<Rightarrow> int \<Rightarrow> int" where
  "rk u i = num_val (rank u (Num i))"

text \<open>
  The invariant of a Union-Find over \<open>n\<close> elements: every element has a parent among the
  elements and a numeric rank, and the rank grows strictly along every parent link. It
  holds after the constructor and is preserved by \<^verbatim>\<open>find\<close> and \<^verbatim>\<open>union\<close> on elements in
  range (\<open>uf_inv_new\<close>, \<open>find_uf_effect\<close>, \<open>union_uf_effect\<close> below).
\<close>

definition uf_inv :: "nat \<Rightarrow> UnionFind \<Rightarrow> bool" where
  "uf_inv n u =
     (\<forall>i\<in>{0..<int n}.
        parent u (Num i) = Num (par u i) \<and> in_range n (par u i) \<and>
        rank u (Num i) = Num (rk u i) \<and>
        (par u i \<noteq> i \<longrightarrow> rk u i < rk u (par u i)))"

text \<open>The value returned by \<^verbatim>\<open>find\<close>, without the new state.\<close>

definition rootv :: "UnionFind \<Rightarrow> jsval \<Rightarrow> jsval option" where
  "rootv u x = map_option fst (find_uf u x)"

text \<open>The elements that are their own parent.\<close>

definition roots :: "nat \<Rightarrow> UnionFind \<Rightarrow> int set" where
  "roots n u = {i \<in> {0..<int n}. par u i = i}"

text \<open>The Euclidean distance between a vertex and the point \<open>(px, py)\<close>.\<close>

definition euclid :: "vertex \<Rightarrow> real \<Rightarrow> real \<Rightarrow> real" where
  "euclid v px py = sqrt ((vx v - px)\<^sup>2 + (vy v - py)\<^sup>2)"

text \<open>
  The distance as \<^verbatim>\<open>addVertex\<close> and \<^verbatim>\<open>addEdge\<close> compute it: \<^verbatim>\<open>Math.sqrt(dx * dx + dy * dy)\<close>
  with \<^verbatim>\<open>dx\<close> and \<^verbatim>\<open>dy\<close> the computed coordinate differences.
\<close>

definition distance64 :: "vertex \<Rightarrow> real \<Rightarrow> real \<Rightarrow> number" where
  "distance64 v px py =
     (let dx = sub64 (Fin (vx v)) (Fin px); dy = sub64 (Fin (vy v)) (Fin py)
      in sqrt64 (add64 (mul64 dx dx) (mul64 dy dy)))"

text \<open>The same, from the exact coordinate differences \<open>a\<close> and \<open>b\<close>.\<close>

definition dist64 :: "real \<Rightarrow> real \<Rightarrow> number" where
  "dist64 a b = sqrt64 (add64 (mul64 (fl a) (fl a)) (mul64 (fl b) (fl b)))"

text \<open>No self-loop, and no two edges on the same unordered pair of endpoints.\<close>

definition edges_ok :: "edge list \<Rightarrow> bool" where
  "edges_ok es = ((\<forall>e\<in>set es. v1 e \<noteq> v2 e) \<and> distinct (map (\<lambda>e. {v1 e, v2 e}) es))"

text \<open>A sequence of \<^verbatim>\<open>addEdge\<close> calls, whatever each one returns.\<close>

definition connect_all :: "Graph \<Rightarrow> (int \<times> int) list \<Rightarrow> Graph" where
  "connect_all g reqs = fold (\<lambda>(a, b) g. snd (addEdge g a b)) reqs g"

text \<open>Two buildings 100 apart, already connected.\<close>

definition cx_graph :: Graph where
  "cx_graph = \<lparr>vertices = [\<lparr>vx = 0, vy = 0\<rparr>, \<lparr>vx = 100, vy = 0\<rparr>],
              edges = [\<lparr>v1 = 0, v2 = 1, weight = 100\<rparr>]\<rparr>"

text \<open>
  The synthetic scenario: A = (0, 0), B = (10, 0), C = (10, 10) placed directly (the
  separation check of \<^verbatim>\<open>addVertex\<close> is not involved), then the edges A-B, B-C, A-C
  requested in this order.
\<close>

definition scenario_graph :: Graph where
  "scenario_graph =
     connect_all \<lparr>vertices = [\<lparr>vx = 0, vy = 0\<rparr>, \<lparr>vx = 10, vy = 0\<rparr>, \<lparr>vx = 10, vy = 10\<rparr>], edges = []\<rparr>
       [(0, 1), (1, 2), (0, 2)]"

text \<open>
  Four elements; \<^verbatim>\<open>union(0, 1)\<close>, \<^verbatim>\<open>union(2, 3)\<close>, \<^verbatim>\<open>union(1, 3)\<close> and \<^verbatim>\<open>union(1, 3)\<close>
  again. Reported: what the third and the fourth call return, and \<^verbatim>\<open>parent[3]\<close> before
  and after the fourth call.
\<close>

definition cx_unions :: "(bool \<times> bool \<times> jsval \<times> jsval) option" where
  "cx_unions = do {
     (m1, u1) \<leftarrow> union_uf (UnionFind_new 4) (Num 0) (Num 1);
     (m2, u2) \<leftarrow> union_uf u1 (Num 2) (Num 3);
     (m3, u3) \<leftarrow> union_uf u2 (Num 1) (Num 3);
     (m4, u4) \<leftarrow> union_uf u3 (Num 1) (Num 3);
     Some (m3, m4, parent u3 (Num 3), parent u4 (Num 3))
   }"

text \<open>A sequence of events, each handled to completion.\<close>

fun run :: "PipelineApp \<Rightarrow> event list \<Rightarrow> PipelineApp option" where
  "run s [] = Some s"
| "run s (ev # evs) = step s ev \<bind> (\<lambda>s'. run s' evs)"

text \<open>
  Two buildings are placed, connected by clicking on their bases, the MST is computed,
  and the application is switched back to placing buildings.
\<close>

definition cx_events :: "event list" where
  "cx_events =
     [CanvasClick 0 0, CanvasClick 100 0, ClickAddConnection, CanvasClick 0 16,
      CanvasClick 100 16, ClickFindMST, ClickAddBuilding]"

text \<open>The state reached by these events: one edge, cached as the MST.\<close>

definition cx_cached :: PipelineApp where
  "cx_cached =
     \<lparr>graph = cx_graph, selectedVertex = None, hoveredVertex = None,
      lastMouseX = 0, lastMouseY = 0, mode = AddBuilding,
      mstEdges = [\<lparr>v1 = 0, v2 = 1, weight = 100\<rparr>], totalCost = Fin 100\<rparr>"

text \<open>
  Connection mode with building 0 selected, no edge yet and a non-empty cached result.
\<close>

definition cx_selected :: PipelineApp where
  "cx_selected =
     \<lparr>graph = \<lparr>vertices = vertices cx_graph, edges = []\<rparr>, selectedVertex = Some 0,
      hoveredVertex = None, lastMouseX = 0, lastMouseY = 0, mode = AddConnection,
      mstEdges = [\<lparr>v1 = 0, v2 = 1, weight = 100\<rparr>], totalCost = Fin 100\<rparr>"

text \<open>
  Every edge joins two of the \<open>n\<close> vertices, as every edge stored by \<^verbatim>\<open>addEdge\<close> does.
\<close>

definition edges_in_range :: "nat \<Rightarrow> edge list \<Rightarrow> bool" where
  "edges_in_range n es = (\<forall>e\<in>set es. in_range n (v1 e) \<and> in_range n (v2 e))"

text \<open>The edges as a symmetric relation on vertex identifiers.\<close>

definition edge_rel :: "edge list \<Rightarrow> (int \<times> int) set" where
  "edge_rel es = (\<Union>e\<in>set es. {(v1 e, v2 e), (v2 e, v1 e)})"

text \<open>
  The graph on the vertices \<open>0 .. n - 1\<close> is connected: every vertex reaches every other along edges.
\<close>

definition connected_graph :: "nat \<Rightarrow> edge list \<Rightarrow> bool" where
  "connected_graph n es = (\<forall>i\<in>{0..<int n}. \<forall>j\<in>{0..<int n}. (i, j) \<in> (edge_rel es)\<^sup>*)"

text \<open>
  Two elements are in the same set of the Union-Find: \<^verbatim>\<open>find\<close> returns the same root.
\<close>

definition uf_rel :: "nat \<Rightarrow> UnionFind \<Rightarrow> (int \<times> int) set" where
  "uf_rel n u = {(i, j). in_range n i \<and> in_range n j \<and> rootv u (Num i) = rootv u (Num j)}"

text \<open>
  The disconnected scenario: four vertices, edges only between 0 and 1 and between 2 and 3.
\<close>

definition pairs_graph :: Graph where
  "pairs_graph =
     \<lparr>vertices = [\<lparr>vx = 0, vy = 0\<rparr>, \<lparr>vx = 100, vy = 0\<rparr>, \<lparr>vx = 0, vy = 100\<rparr>, \<lparr>vx = 100, vy = 100\<rparr>],
      edges = [\<lparr>v1 = 0, v2 = 1, weight = 100\<rparr>, \<lparr>v1 = 2, v2 = 3, weight = 100\<rparr>]\<rparr>"

text \<open>A key that is none of the elements \<open>0 .. n - 1\<close>.\<close>

definition outside :: "nat \<Rightarrow> jsval \<Rightarrow> bool" where
  "outside n k = (\<forall>i. in_range n i \<longrightarrow> k \<noteq> Num i)"

text \<open>
  Nothing is stored in \<^verbatim>\<open>parent\<close> and \<^verbatim>\<open>rank\<close> beside the entries of the \<open>n\<close> elements.
\<close>

definition uf_clean :: "nat \<Rightarrow> UnionFind \<Rightarrow> bool" where
  "uf_clean n u = (\<forall>k. outside n k \<longrightarrow> parent u k = Undefined \<and> rank u k = Undefined)"

text \<open>
  The states of a \<^verbatim>\<open>UnionFind\<close> over \<open>n\<close> elements: the one the constructor builds, and
  those left by \<^verbatim>\<open>find\<close> and \<^verbatim>\<open>union\<close> calls on elements in range.
\<close>

inductive uf_reachable :: "nat \<Rightarrow> UnionFind \<Rightarrow> bool" for n :: nat where
  constructed: "uf_reachable n (UnionFind_new n)"
| after_find: "uf_reachable n u \<Longrightarrow> in_range n i \<Longrightarrow> find_uf u (Num i) = Some (r, u') \<Longrightarrow>
     uf_reachable n u'"
| after_union: "uf_reachable n u \<Longrightarrow> in_range n a \<Longrightarrow> in_range n b \<Longrightarrow>
     union_uf u (Num a) (Num b) = Some (m, u') \<Longrightarrow> uf_reachable n u'"

section \<open>Union-Find: termination and effect of find and union\<close>

lemma rootv_unfold:
  "rootv u x = (if strict_eq (parent u x) x then Some x else rootv u (parent u x))"
  unfolding rootv_def
  by (subst find_uf.simps) (cases "find_uf u (parent u x)"; simp split: prod.splits)

lemma uf_invD:
  assumes "uf_inv n u" "in_range n i"
  shows "parent u (Num i) = Num (par u i)" "in_range n (par u i)"
    "rank u (Num i) = Num (rk u i)" "par u i \<noteq> i \<Longrightarrow> rk u i < rk u (par u i)"
  using assms unfolding uf_inv_def in_range_def by auto

lemma uf_induct [consumes 2, case_names root step]:
  assumes inv: "uf_inv n u" and ir: "in_range n i"
    and base: "\<And>i. in_range n i \<Longrightarrow> par u i = i \<Longrightarrow> P i"
    and step: "\<And>i. in_range n i \<Longrightarrow> par u i \<noteq> i \<Longrightarrow> P (par u i) \<Longrightarrow> P i"
  shows "P i"
proof -
  define B where "B = Max (rk u ` {0..<int n})"
  have bound: "rk u j \<le> B" if "in_range n j" for j
    unfolding B_def using that by (intro Max_ge) (auto simp: in_range_def)
  show ?thesis using ir
  proof (induction i rule: measure_induct_rule [where f = "\<lambda>i. nat (B - rk u i)"])
    case (less i)
    show ?case
    proof (cases "par u i = i")
      case True
      then show ?thesis using base less.prems by blast
    next
      case False
      have pr: "in_range n (par u i)" using uf_invD(2) [OF inv less.prems] .
      have "rk u i < rk u (par u i)" using uf_invD(4) [OF inv less.prems False] .
      moreover have "rk u (par u i) \<le> B" using bound pr by blast
      ultimately have "nat (B - rk u (par u i)) < nat (B - rk u i)" by linarith
      then have "P (par u i)" using less.IH pr by blast
      then show ?thesis using step less.prems False by blast
    qed
  qed
qed

lemma rootv_root:
  assumes "uf_inv n u" "in_range n i" "par u i = i"
  shows "rootv u (Num i) = Some (Num i)"
  using uf_invD(1) [OF assms(1,2)] assms(3)
  by (subst rootv_unfold) (simp add: strict_eq_def)

lemma rootv_step:
  assumes "uf_inv n u" "in_range n i" "par u i \<noteq> i"
  shows "rootv u (Num i) = rootv u (Num (par u i))"
  using uf_invD(1) [OF assms(1,2)] assms(3)
  by (subst rootv_unfold) (simp add: strict_eq_def)

lemma rootv_ex:
  assumes "uf_inv n u" "in_range n i"
  shows "\<exists>r. rootv u (Num i) = Some (Num r) \<and> in_range n r \<and> par u r = r \<and>
             rk u i \<le> rk u r \<and> (r \<noteq> i \<longrightarrow> rk u i < rk u r)"
  using assms
proof (induction rule: uf_induct)
  case (root i)
  then show ?case using rootv_root [OF assms(1)] by auto
next
  case (step i)
  then obtain r where r: "rootv u (Num (par u i)) = Some (Num r)" "in_range n r" "par u r = r"
    "rk u (par u i) \<le> rk u r" by blast
  have "rk u i < rk u (par u i)" using uf_invD(4) [OF assms(1) step(1,2)] .
  then show ?case using r rootv_step [OF assms(1) step(1,2)] by auto
qed

lemma par_parent_upd [simp]:
  "par (u\<lparr>parent := (parent u)(Num x := Num r)\<rparr>) i = (if i = x then r else par u i)"
  by (simp add: par_def)

lemma rk_parent_upd [simp]: "rk (u\<lparr>parent := p\<rparr>) i = rk u i"
  by (simp add: rk_def)

lemma uf_inv_parent_upd:
  assumes inv: "uf_inv n u" and x: "in_range n x" and r: "in_range n r"
    and lt: "r \<noteq> x \<Longrightarrow> rk u x < rk u r"
  shows "uf_inv n (u\<lparr>parent := (parent u)(Num x := Num r)\<rparr>)"
  unfolding uf_inv_def
proof
  fix i assume "i \<in> {0..<int n}"
  then have i: "in_range n i" by (simp add: in_range_def)
  note D = uf_invD [OF inv i]
  show "parent (u\<lparr>parent := (parent u)(Num x := Num r)\<rparr>) (Num i) =
          Num (par (u\<lparr>parent := (parent u)(Num x := Num r)\<rparr>) i) \<and>
        in_range n (par (u\<lparr>parent := (parent u)(Num x := Num r)\<rparr>) i) \<and>
        rank (u\<lparr>parent := (parent u)(Num x := Num r)\<rparr>) (Num i) =
          Num (rk (u\<lparr>parent := (parent u)(Num x := Num r)\<rparr>) i) \<and>
        (par (u\<lparr>parent := (parent u)(Num x := Num r)\<rparr>) i \<noteq> i \<longrightarrow>
         rk (u\<lparr>parent := (parent u)(Num x := Num r)\<rparr>) i
           < rk (u\<lparr>parent := (parent u)(Num x := Num r)\<rparr>)
               (par (u\<lparr>parent := (parent u)(Num x := Num r)\<rparr>) i))"
    using D r lt by auto
qed

lemma compress_rootv:
  assumes inv: "uf_inv n u" and x: "in_range n x" and r: "rootv u (Num x) = Some (Num r)"
    and j: "in_range n j"
  shows "rootv (u\<lparr>parent := (parent u)(Num x := Num r)\<rparr>) (Num j) = rootv u (Num j)"
proof -
  define u' where "u' = u\<lparr>parent := (parent u)(Num x := Num r)\<rparr>"
  have par': "par u' i = (if i = x then r else par u i)" for i
    by (simp add: u'_def)
  obtain r' where r': "rootv u (Num x) = Some (Num r')" "in_range n r'" "par u r' = r'"
    "r' \<noteq> x \<longrightarrow> rk u x < rk u r'"
    using rootv_ex [OF inv x] by blast
  with r have [simp]: "r' = r" by simp
  have inv': "uf_inv n u'"
    unfolding u'_def using uf_inv_parent_upd [OF inv x] r' by simp
  have rr: "rootv u' (Num r) = Some (Num r)"
    using r' by (intro rootv_root [OF inv']) (auto simp: par')
  have "rootv u' (Num j) = rootv u (Num j)" using inv j
  proof (induction rule: uf_induct)
    case (root i)
    have "par u' i = i"
    proof (cases "i = x")
      case True
      then have "rootv u (Num x) = Some (Num x)" using rootv_root [OF inv root(1)] root(2) by simp
      then show ?thesis using r True by (simp add: par')
    qed (use root in \<open>simp add: par'\<close>)
    then have "rootv u' (Num i) = Some (Num i)" by (rule rootv_root [OF inv' root(1)])
    also have "Some (Num i) = rootv u (Num i)" using rootv_root [OF inv root] by simp
    finally show ?case .
  next
    case (step i)
    show ?case
    proof (cases "i = x")
      case True
      then have "r \<noteq> x" using step r' by auto
      then have "rootv u' (Num x) = rootv u' (Num r)"
        using rootv_step [OF inv' x] by (simp add: par')
      then show ?thesis using True rr r by simp
    next
      case False
      then have "rootv u' (Num i) = rootv u' (Num (par u i))"
        using rootv_step [OF inv' step(1)] step(2) by (simp add: par')
      then show ?thesis using step(3) rootv_step [OF inv step(1,2)] by simp
    qed
  qed
  then show ?thesis unfolding u'_def .
qed

lemma find_uf_root:
  assumes "uf_inv n u" "in_range n i" "par u i = i"
  shows "find_uf u (Num i) = Some (Num i, u)"
  using uf_invD(1) [OF assms(1,2)] assms(3)
  by (subst find_uf.simps) (simp add: strict_eq_def)

lemma find_uf_step:
  assumes "uf_inv n u" "in_range n i" "par u i \<noteq> i"
  shows "find_uf u (Num i) =
           find_uf u (Num (par u i)) \<bind> (\<lambda>(r, u'). Some (r, u'\<lparr>parent := (parent u')(Num i := r)\<rparr>))"
  using uf_invD(1) [OF assms(1,2)] assms(3)
  by (subst find_uf.simps) (simp add: strict_eq_def)

lemma find_uf_effect:
  assumes inv: "uf_inv n u" and i: "in_range n i"
  shows "\<exists>r u'. find_uf u (Num i) = Some (Num r, u') \<and> in_range n r \<and>
           rank u' = rank u \<and> uf_inv n u' \<and>
           (\<forall>j. in_range n j \<longrightarrow> rootv u' (Num j) = rootv u (Num j)) \<and>
           (\<forall>j. in_range n j \<longrightarrow> (par u' j = j) = (par u j = j))"
  using inv i
proof (induction rule: uf_induct)
  case (root i)
  then show ?case using find_uf_root [OF inv root] inv by simp
next
  case (step i)
  then obtain r u1 where f: "find_uf u (Num (par u i)) = Some (Num r, u1)" and r: "in_range n r"
    and rank1: "rank u1 = rank u" and inv1: "uf_inv n u1"
    and rv1: "\<And>j. in_range n j \<Longrightarrow> rootv u1 (Num j) = rootv u (Num j)"
    and rt1: "\<And>j. in_range n j \<Longrightarrow> (par u1 j = j) = (par u j = j)"
    by blast
  define u' where "u' = u1\<lparr>parent := (parent u1)(Num i := Num r)\<rparr>"
  have par': "par u' j = (if j = i then r else par u1 j)" for j
    by (simp add: u'_def)
  have fi: "find_uf u (Num i) = Some (Num r, u')"
    using find_uf_step [OF inv step(1,2)] f by (simp add: u'_def)
  have "rootv u (Num i) = Some (Num r)"
    using fi by (simp add: rootv_def)
  then have ri: "rootv u1 (Num i) = Some (Num r)" using rv1 step(1) by simp
  obtain r' where r': "rootv u1 (Num i) = Some (Num r')" "par u1 r' = r'"
    "r' \<noteq> i \<longrightarrow> rk u1 i < rk u1 r'"
    using rootv_ex [OF inv1 step(1)] by blast
  with ri have [simp]: "r' = r" by simp
  have inv': "uf_inv n u'"
    unfolding u'_def using uf_inv_parent_upd [OF inv1 step(1) r] r' by simp
  have rv': "rootv u' (Num j) = rootv u (Num j)" if "in_range n j" for j
    unfolding u'_def using compress_rootv [OF inv1 step(1) ri that] rv1 that by simp
  have "par u1 i \<noteq> i" using rt1 step(1,2) by simp
  then have "r \<noteq> i" using r' by auto
  then have rt': "(par u' j = j) = (par u j = j)" if "in_range n j" for j
    using rt1 that step(2) by (auto simp: par')
  have rank': "rank u' = rank u" using rank1 by (simp add: u'_def)
  show ?case using fi r rank' inv' rv' rt' by blast
qed

lemma link_effect:
  assumes inv: "uf_inv n u"
    and c: "in_range n c" "par u c = c" and t: "in_range n t" "par u t = t" and ne: "c \<noteq> t"
    and p': "parent u' = (parent u)(Num c := Num t)"
    and rank': "\<And>j. in_range n j \<Longrightarrow> j \<noteq> t \<Longrightarrow> rank u' (Num j) = rank u (Num j)"
    and rt: "rank u' (Num t) = Num q" "rk u t \<le> q" "rk u c < q"
  shows "uf_inv n u'"
    and "\<And>j. in_range n j \<Longrightarrow>
           rootv u' (Num j) =
             (if rootv u (Num j) = Some (Num c) then Some (Num t) else rootv u (Num j))"
    and "roots n u' = roots n u - {c}"
proof -
  have par': "par u' i = (if i = c then t else par u i)" for i
    by (simp add: par_def p')
  have rk': "rk u' j = rk u j" if "in_range n j" "j \<noteq> t" for j
    using rank' [OF that] by (simp add: rk_def)
  have rkt: "rk u' t = q" using rt(1) by (simp add: rk_def)
  show inv': "uf_inv n u'"
    unfolding uf_inv_def
  proof
    fix i assume "i \<in> {0..<int n}"
    then have i: "in_range n i" by (simp add: in_range_def)
    note D = uf_invD [OF inv i]
    have 1: "parent u' (Num i) = Num (par u' i)" using D(1) by (simp add: p' par')
    have 2: "in_range n (par u' i)" using D(2) t(1) by (simp add: par')
    have 3: "rank u' (Num i) = Num (rk u' i)"
      using D(3) rank' [OF i] rt(1) by (cases "i = t") (simp_all add: rk_def)
    have 4: "rk u' i < rk u' (par u' i)" if "par u' i \<noteq> i"
    proof (cases "i = c")
      case True
      then show ?thesis using rk' [OF c(1) ne] rkt rt(3) by (simp add: par')
    next
      case False
      then have pi: "par u i \<noteq> i" using that by (simp add: par')
      then have it: "i \<noteq> t" using t(2) by auto
      have "rk u (par u i) \<le> rk u' (par u i)"
        using rk' [OF D(2)] rkt rt(2) by (cases "par u i = t") auto
      then show ?thesis using D(4) [OF pi] rk' [OF i it] False by (simp add: par')
    qed
    show "parent u' (Num i) = Num (par u' i) \<and> in_range n (par u' i) \<and>
          rank u' (Num i) = Num (rk u' i) \<and> (par u' i \<noteq> i \<longrightarrow> rk u' i < rk u' (par u' i))"
      using 1 2 3 4 by blast
  qed
  have tt: "rootv u' (Num t) = Some (Num t)"
    using ne t by (intro rootv_root [OF inv']) (auto simp: par')
  show "rootv u' (Num j) =
          (if rootv u (Num j) = Some (Num c) then Some (Num t) else rootv u (Num j))"
    if "in_range n j" for j
    using inv that
  proof (induction rule: uf_induct)
    case (root i)
    note ri = rootv_root [OF inv root]
    show ?case
    proof (cases "i = c")
      case True
      then have "rootv u' (Num c) = rootv u' (Num t)"
        using rootv_step [OF inv' c(1)] ne by (simp add: par')
      then show ?thesis using True ri tt by simp
    next
      case False
      then have "par u' i = i" using root by (simp add: par')
      then have "rootv u' (Num i) = Some (Num i)" by (rule rootv_root [OF inv' root(1)])
      then show ?thesis using False ri by simp
    qed
  next
    case (step i)
    then have "i \<noteq> c" using c(2) by auto
    then have "rootv u' (Num i) = rootv u' (Num (par u i))"
      using rootv_step [OF inv' step(1)] step(2) by (simp add: par')
    then show ?case using step(3) rootv_step [OF inv step(1,2)] by simp
  qed
  show "roots n u' = roots n u - {c}"
    using c t ne by (auto simp: roots_def par')
qed

lemma find_uf_full:
  assumes inv: "uf_inv n u" and i: "in_range n i"
  obtains r u' where "find_uf u (Num i) = Some (Num r, u')" "in_range n r"
    "rootv u (Num i) = Some (Num r)" "par u' r = r"
    "rank u' = rank u" "uf_inv n u'"
    "\<And>j. in_range n j \<Longrightarrow> rootv u' (Num j) = rootv u (Num j)"
    "\<And>j. in_range n j \<Longrightarrow> (par u' j = j) = (par u j = j)"
proof -
  obtain r u' where f: "find_uf u (Num i) = Some (Num r, u')" and r: "in_range n r"
    and rest: "rank u' = rank u" "uf_inv n u'"
      "\<And>j. in_range n j \<Longrightarrow> rootv u' (Num j) = rootv u (Num j)"
      "\<And>j. in_range n j \<Longrightarrow> (par u' j = j) = (par u j = j)"
    using find_uf_effect [OF inv i] by blast
  have rv: "rootv u (Num i) = Some (Num r)" using f by (simp add: rootv_def)
  obtain r' where "rootv u (Num i) = Some (Num r')" "par u r' = r'"
    using rootv_ex [OF inv i] by blast
  with rv have "par u r = r" by simp
  then have "par u' r = r" using rest(4) [OF r] by simp
  then show ?thesis using that f r rv rest by blast
qed

lemma roots_eqI:
  assumes "\<And>j. in_range n j \<Longrightarrow> (par u' j = j) = (par u j = j)"
  shows "roots n u' = roots n u"
  using assms by (auto simp: roots_def in_range_def)

lemma union_uf_effect:
  assumes inv: "uf_inv n u" and a: "in_range n a" and b: "in_range n b"
  shows "\<exists>res u'. union_uf u (Num a) (Num b) = Some (res, u') \<and> uf_inv n u' \<and>
           res = (rootv u (Num a) \<noteq> rootv u (Num b)) \<and>
           (\<not> res \<longrightarrow> rank u' = rank u \<and> roots n u' = roots n u \<and>
              (\<forall>j. in_range n j \<longrightarrow> rootv u' (Num j) = rootv u (Num j))) \<and>
           (res \<longrightarrow> (\<exists>c t. {Some (Num c), Some (Num t)} = {rootv u (Num a), rootv u (Num b)} \<and>
              c \<in> roots n u \<and> roots n u' = roots n u - {c} \<and>
              (\<forall>j. in_range n j \<longrightarrow> rootv u' (Num j) =
                  (if rootv u (Num j) = Some (Num c) then Some (Num t) else rootv u (Num j)))))"
proof -
  obtain ra u1 where f1: "find_uf u (Num a) = Some (Num ra, u1)" and ra: "in_range n ra"
    and rva: "rootv u (Num a) = Some (Num ra)" and rta: "par u1 ra = ra"
    and rank1: "rank u1 = rank u" and inv1: "uf_inv n u1"
    and rv1: "\<And>j. in_range n j \<Longrightarrow> rootv u1 (Num j) = rootv u (Num j)"
    and rt1: "\<And>j. in_range n j \<Longrightarrow> (par u1 j = j) = (par u j = j)"
    using find_uf_full [OF inv a] by metis
  obtain rb u2 where f2: "find_uf u1 (Num b) = Some (Num rb, u2)" and rb: "in_range n rb"
    and rvb1: "rootv u1 (Num b) = Some (Num rb)" and rtb: "par u2 rb = rb"
    and rank2: "rank u2 = rank u1" and inv2: "uf_inv n u2"
    and rv2: "\<And>j. in_range n j \<Longrightarrow> rootv u2 (Num j) = rootv u1 (Num j)"
    and rt2: "\<And>j. in_range n j \<Longrightarrow> (par u2 j = j) = (par u1 j = j)"
    using find_uf_full [OF inv1 b] by metis
  have rvb: "rootv u (Num b) = Some (Num rb)" using rvb1 rv1 [OF b] by simp
  have rta2: "par u2 ra = ra" using rta rt2 [OF ra] by simp
  have rv: "rootv u2 (Num j) = rootv u (Num j)" if "in_range n j" for j
    using rv1 rv2 that by simp
  have rts: "roots n u2 = roots n u"
    using roots_eqI [of n u2 u1] roots_eqI [of n u1 u] rt1 rt2 by simp
  have rka: "rank u2 (Num ra) = Num (rk u2 ra)" and rkb: "rank u2 (Num rb) = Num (rk u2 rb)"
    using uf_invD(3) [OF inv2] ra rb by auto
  note un = union_uf_def [of u "Num a" "Num b", unfolded f1, simplified, unfolded f2, simplified]
  show ?thesis
  proof (cases "ra = rb")
    case True
    then have "union_uf u (Num a) (Num b) = Some (False, u2)"
      using un by (simp add: strict_eq_def)
    then show ?thesis using True inv2 rva rvb rank1 rank2 rts rv
      by (intro exI [of _ False] exI [of _ u2]) simp
  next
    case ne: False
    have sets: "{Some (Num ra), Some (Num rb)} = {rootv u (Num a), rootv u (Num b)}"
      "{Some (Num rb), Some (Num ra)} = {rootv u (Num a), rootv u (Num b)}"
      using rva rvb by auto
    have rin: "ra \<in> roots n u" "rb \<in> roots n u"
      using rts ra rb rta2 rtb by (auto simp: roots_def in_range_def)
    consider (lt) "rk u2 ra < rk u2 rb" | (gt) "rk u2 rb < rk u2 ra" | (eq) "rk u2 ra = rk u2 rb"
      by linarith
    then show ?thesis
    proof cases
      case lt
      define u' where "u' = u2\<lparr>parent := (parent u2)(Num ra := Num rb)\<rparr>"
      have U: "union_uf u (Num a) (Num b) = Some (True, u')"
        using un ne lt rka rkb by (simp add: strict_eq_def u'_def)
      have L: "uf_inv n u'" "roots n u' = roots n u2 - {ra}"
        "\<And>j. in_range n j \<Longrightarrow> rootv u' (Num j) =
            (if rootv u2 (Num j) = Some (Num ra) then Some (Num rb) else rootv u2 (Num j))"
        using link_effect [OF inv2 ra rta2 rb rtb ne, of u' "rk u2 rb"] lt rkb
        by (simp_all add: u'_def)
      show ?thesis using U L rva rvb ne rts rv rin sets(1) by (intro exI [of _ True] exI [of _ u']) auto
    next
      case gt
      define u' where "u' = u2\<lparr>parent := (parent u2)(Num rb := Num ra)\<rparr>"
      have U: "union_uf u (Num a) (Num b) = Some (True, u')"
        using un ne gt rka rkb by (simp add: strict_eq_def u'_def)
      have ne': "rb \<noteq> ra" using ne by simp
      have L: "uf_inv n u'" "roots n u' = roots n u2 - {rb}"
        "\<And>j. in_range n j \<Longrightarrow> rootv u' (Num j) =
            (if rootv u2 (Num j) = Some (Num rb) then Some (Num ra) else rootv u2 (Num j))"
        using link_effect [OF inv2 rb rtb ra rta2 ne', of u' "rk u2 ra"] gt rka
        by (simp_all add: u'_def)
      show ?thesis using U L rva rvb ne rts rv rin sets(2) by (intro exI [of _ True] exI [of _ u']) auto
    next
      case eq
      define u' where "u' = u2\<lparr>parent := (parent u2)(Num rb := Num ra),
                                rank := (rank u2)(Num ra := js_incr (rank u2 (Num ra)))\<rparr>"
      have U: "union_uf u (Num a) (Num b) = Some (True, u')"
        using un ne eq rka rkb by (simp add: strict_eq_def u'_def)
      have ne': "rb \<noteq> ra" using ne by simp
      have L: "uf_inv n u'" "roots n u' = roots n u2 - {rb}"
        "\<And>j. in_range n j \<Longrightarrow> rootv u' (Num j) =
            (if rootv u2 (Num j) = Some (Num rb) then Some (Num ra) else rootv u2 (Num j))"
        using link_effect [OF inv2 rb rtb ra rta2 ne', of u' "rk u2 ra + 1"] eq rka
        by (simp_all add: u'_def)
      show ?thesis using U L rva rvb ne rts rv rin sets(2) by (intro exI [of _ True] exI [of _ u']) auto
    qed
  qed
qed

section \<open>Binary64 arithmetic\<close>

subsection \<open>Rounding to the nearest binary64 value\<close>

lemma rne_error: "\<bar>of_int (rne r) - r\<bar> \<le> 1 / 2"
  unfolding rne_def Let_def by (auto; linarith)

lemma rne_unique:
  assumes "\<bar>r - of_int m\<bar> < 1 / 2"
  shows "rne r = m"
proof -
  have "\<bar>of_int (rne r) - of_int m :: real\<bar> < 1" using rne_error [of r] assms by linarith
  then have "\<bar>rne r - m\<bar> < 1" by (metis of_int_diff of_int_abs of_int_less_1_iff)
  then show ?thesis by linarith
qed

lemma rne_of_int [simp]: "rne (of_int n) = n"
  by (rule rne_unique) simp

lemma rne_ge:
  assumes "of_int n \<le> r"
  shows "n \<le> rne r"
proof -
  have "n \<le> \<lfloor>r\<rfloor>" using assms by (simp add: le_floor_iff)
  moreover have "\<lfloor>r\<rfloor> \<le> rne r" unfolding rne_def Let_def by auto
  ultimately show ?thesis by linarith
qed

lemma rne_le:
  assumes "r \<le> of_int n"
  shows "rne r \<le> n"
proof (cases "r = of_int n")
  case True
  then show ?thesis by simp
next
  case False
  then have "r < of_int n" using assms by simp
  then have "\<lfloor>r\<rfloor> < n" by (simp add: floor_less_iff)
  moreover have "rne r \<le> \<lfloor>r\<rfloor> + 1" unfolding rne_def Let_def by auto
  ultimately show ?thesis by linarith
qed

lemma pow2_le_iff: "(2::real) powi a \<le> 2 powi b \<longleftrightarrow> a \<le> b"
proof
  assume "(2::real) powi a \<le> 2 powi b"
  then show "a \<le> b"
    using power_int_strict_increasing [of b a "2::real"] by (cases "a \<le> b") auto
next
  assume "a \<le> b"
  then show "(2::real) powi a \<le> 2 powi b" by (intro power_int_increasing) auto
qed

lemma pow2_less_iff: "(2::real) powi a < 2 powi b \<longleftrightarrow> a < b"
  using pow2_le_iff [of b a] by (auto simp: not_le [symmetric])

lemma pow2_pos [simp]: "0 < (2::real) powi a"
  by simp

lemma binade_bounds:
  assumes "x \<noteq> 0"
  shows "2 powi binade x \<le> \<bar>x\<bar>" "\<bar>x\<bar> < 2 powi (binade x + 1)"
proof -
  have pos: "0 < \<bar>x\<bar>" using assms by simp
  have "2 powr (of_int (binade x)) \<le> \<bar>x\<bar> \<and> \<bar>x\<bar> < 2 powr (of_int (binade x) + 1)"
    using floor_log_eq_powr_iff [OF pos, of 2 "binade x"] by (simp add: binade_def)
  moreover have "2 powr (of_int (binade x) + 1) = (2::real) powr (of_int (binade x + 1))" by simp
  ultimately show "2 powi binade x \<le> \<bar>x\<bar>" "\<bar>x\<bar> < 2 powi (binade x + 1)"
    by (simp_all add: powr_real_of_int' del: of_int_add)
qed

lemma binade_le:
  assumes "x \<noteq> 0" "\<bar>x\<bar> \<le> 2 powi j"
  shows "binade x \<le> j"
proof -
  have "(2::real) powi binade x \<le> 2 powi j" using binade_bounds(1) [OF assms(1)] assms(2) by linarith
  then show ?thesis by (simp add: pow2_le_iff)
qed

lemma binade_ge:
  assumes "2 powi j \<le> \<bar>x\<bar>"
  shows "j \<le> binade x"
proof -
  have p: "0 < (2::real) powi j" by simp
  have "0 < \<bar>x\<bar>" using p assms by linarith
  then have nz: "x \<noteq> 0" by auto
  have "(2::real) powi j < 2 powi (binade x + 1)" using binade_bounds(2) [OF nz] assms by linarith
  then have "j < binade x + 1" by (simp add: pow2_less_iff)
  then show ?thesis by simp
qed

lemma ulp_exp_ge: "- 1074 \<le> ulp_exp x"
  by (simp add: ulp_exp_def)

lemma ulp_exp_le:
  assumes "x \<noteq> 0" "\<bar>x\<bar> \<le> 2 powi j" "- 1022 \<le> j"
  shows "ulp_exp x \<le> j - 52"
  using binade_le [OF assms(1,2)] assms(3) by (simp add: ulp_exp_def)

lemma rnd_error_ulp: "\<bar>rnd x - x\<bar> \<le> 2 powi ulp_exp x / 2"
proof (cases "x = 0")
  case True
  then show ?thesis by (simp add: rnd_def)
next
  case False
  define u :: real where "u = 2 powi ulp_exp x"
  have u: "0 < u" by (simp add: u_def)
  have "rnd x - x = (of_int (rne (x / u)) - x / u) * u"
    using False u by (simp add: rnd_def u_def field_simps)
  then have "\<bar>rnd x - x\<bar> = \<bar>of_int (rne (x / u)) - x / u\<bar> * u"
    using u by (simp add: abs_mult)
  also have "\<dots> \<le> (1 / 2) * u"
    using rne_error [of "x / u"] u by (intro mult_right_mono) auto
  finally show ?thesis by (simp add: u_def)
qed

lemma rnd_error:
  assumes "\<bar>x\<bar> \<le> 2 powi j" "- 1022 \<le> j"
  shows "\<bar>rnd x - x\<bar> \<le> 2 powi (j - 53)"
proof (cases "x = 0")
  case True
  then show ?thesis by (simp add: rnd_def)
next
  case False
  have "(2::real) powi ulp_exp x \<le> 2 powi (j - 52)"
    using ulp_exp_le [OF False assms] by (simp add: pow2_le_iff)
  moreover have "(2::real) powi (j - 52) = 2 * 2 powi (j - 53)"
    using power_int_add_1' [of "2::real" "j - 53"] by simp
  ultimately show ?thesis using rnd_error_ulp [of x] by linarith
qed

lemma rnd_nonneg:
  assumes "0 \<le> x"
  shows "0 \<le> rnd x"
proof (cases "x = 0")
  case True
  then show ?thesis by (simp add: rnd_def)
next
  case False
  have "of_int 0 \<le> x / 2 powi ulp_exp x" using assms by simp
  then have "0 \<le> rne (x / 2 powi ulp_exp x)" by (rule rne_ge)
  then show ?thesis using False by (simp add: rnd_def)
qed

lemma rnd_exact:
  assumes x: "x = of_int m * 2 powi k" and m: "\<bar>m\<bar> < 2 ^ 53" and k: "- 1074 \<le> k"
  shows "rnd x = x"
proof (cases "x = 0")
  case True
  then show ?thesis by (simp add: rnd_def)
next
  case False
  have "\<bar>x\<bar> = of_int \<bar>m\<bar> * 2 powi k" by (simp add: x abs_mult)
  also have "\<dots> \<le> 2 ^ 53 * 2 powi k"
    using m by (intro mult_right_mono) (auto simp: of_int_le_numeral_power_cancel_iff)
  also have "\<dots> = 2 powi (k + 53)" by (simp add: power_int_add)
  finally have "binade x \<le> k + 53" using binade_le [OF False] by simp
  moreover have "binade x \<noteq> k + 53"
  proof
    assume "binade x = k + 53"
    then have "2 powi (k + 53) \<le> \<bar>x\<bar>" using binade_bounds(1) [OF False] by simp
    moreover have "\<bar>x\<bar> < 2 powi (k + 53)"
    proof -
      have "of_int \<bar>m\<bar> < (2::real) ^ 53" using m by (simp add: of_int_less_numeral_power_cancel_iff)
      then have "of_int \<bar>m\<bar> * 2 powi k < (2::real) ^ 53 * 2 powi k"
        by (intro mult_strict_right_mono) auto
      then show ?thesis by (simp add: x abs_mult power_int_add)
    qed
    ultimately show False by simp
  qed
  ultimately have "ulp_exp x \<le> k" using k by (simp add: ulp_exp_def)
  define q where "q = ulp_exp x"
  have "q \<le> k" using \<open>ulp_exp x \<le> k\<close> by (simp add: q_def)
  then obtain d where d: "k = q + int d"
    by (metis zle_iff_zadd)
  have xq: "x = of_int (m * 2 ^ d) * 2 powi q"
    unfolding x d by (simp add: power_int_add)
  have "x / 2 powi q = of_int (m * 2 ^ d)"
    unfolding xq by simp
  then have "rne (x / 2 powi q) = m * 2 ^ d" by (simp only: rne_of_int)
  then have "rnd x = of_int (m * 2 ^ d) * 2 powi q"
    using False by (simp add: rnd_def q_def [symmetric])
  then show ?thesis using xq by simp
qed

lemma rnd_scaled_ge:
  assumes "x \<noteq> 0" "of_int n * 2 powi ulp_exp x \<le> x"
  shows "of_int n * 2 powi ulp_exp x \<le> rnd x"
proof -
  have "of_int n \<le> x / 2 powi ulp_exp x" using assms(2) by (simp add: field_simps)
  then have "n \<le> rne (x / 2 powi ulp_exp x)" by (rule rne_ge)
  then have "real_of_int n * 2 powi ulp_exp x \<le> of_int (rne (x / 2 powi ulp_exp x)) * 2 powi ulp_exp x"
    by (intro mult_right_mono) auto
  then show ?thesis using assms(1) by (simp add: rnd_def)
qed

lemma rnd_ge_grid:
  assumes g: "g = of_int m * 2 powi k" and m: "0 < m" "m < 2 ^ 53" and k: "- 1074 \<le> k"
    and gx: "g \<le> x"
  shows "g \<le> rnd x"
proof -
  have gpos: "0 < g" using m(1) by (simp add: g)
  then have xpos: "0 < x" and nz: "x \<noteq> 0" using gx by auto
  define q where "q = ulp_exp x"
  show ?thesis
  proof (cases "q \<le> k")
    case True
    then obtain d where d: "k = q + int d" by (metis zle_iff_zadd)
    have "g = of_int (m * 2 ^ d) * 2 powi q" unfolding g d by (simp add: power_int_add)
    then show ?thesis using rnd_scaled_ge [OF nz, of "m * 2 ^ d"] gx by (simp add: q_def)
  next
    case False
    then have kq: "k + 1 \<le> q" by simp
    have "q \<noteq> - 1074" using kq k by simp
    then have e: "q = binade x - 52" by (auto simp: q_def ulp_exp_def max_def split: if_splits)
    have "2 powi binade x \<le> x" using binade_bounds(1) [OF nz] xpos by simp
    moreover have "(2::real) powi binade x = of_int (2 ^ 52) * 2 powi q"
      by (simp add: e power_int_diff)
    ultimately have "2 powi binade x \<le> rnd x"
      using rnd_scaled_ge [OF nz, of "2 ^ 52"] by (simp add: q_def)
    moreover have "g < 2 powi binade x"
    proof -
      have "of_int m < (2::real) ^ 53" using m(2) by (simp add: of_int_less_numeral_power_cancel_iff)
      then have "g < 2 ^ 53 * 2 powi k" unfolding g by (intro mult_strict_right_mono) auto
      also have "\<dots> = 2 powi (k + 53)" by (simp add: power_int_add)
      also have "\<dots> \<le> 2 powi binade x" using kq e by (simp add: pow2_le_iff)
      finally show ?thesis .
    qed
    ultimately show ?thesis by linarith
  qed
qed

lemma rne_minus: "rne (- r) = - rne r"
proof (cases "r = of_int \<lfloor>r\<rfloor>")
  case True
  then have "rne (- r) = rne (of_int (- \<lfloor>r\<rfloor>))" by simp
  also have "\<dots> = - \<lfloor>r\<rfloor>" by (rule rne_of_int)
  also have "\<dots> = - rne (of_int \<lfloor>r\<rfloor>)" by simp
  finally show ?thesis using True by simp
next
  case False
  then have fl: "\<lfloor>- r\<rfloor> = - \<lfloor>r\<rfloor> - 1"
    by (intro floor_unique) (auto simp: less_le; linarith)+
  show ?thesis
    unfolding rne_def Let_def fl by (auto; linarith)
qed

lemma binade_minus: "binade (- x) = binade x"
  by (simp add: binade_def)

lemma rnd_minus: "rnd (- x) = - rnd x"
  by (simp add: rnd_def ulp_exp_def binade_minus rne_minus)

lemma rnd_le_grid:
  assumes "g = of_int m * 2 powi k" "0 < m" "m < 2 ^ 53" "- 1074 \<le> k" "x \<le> - g"
  shows "rnd x \<le> - g"
  using rnd_ge_grid [OF assms(1-4), of "- x"] assms(5) by (simp add: rnd_minus)

lemma rnd_nearest:
  assumes lo: "2 powi (k + 52) \<le> \<bar>x\<bar>" and hi: "\<bar>x\<bar> < 2 powi (k + 53)" and k: "- 1074 \<le> k"
    and m: "\<bar>x / 2 powi k - of_int m\<bar> < 1 / 2"
  shows "rnd x = of_int m * 2 powi k"
proof -
  have p: "0 < (2::real) powi (k + 52)" by simp
  have "0 < \<bar>x\<bar>" using p lo by linarith
  then have nz: "x \<noteq> 0" by auto
  have "k + 52 \<le> binade x" using binade_ge [OF lo] .
  moreover have "binade x < k + 53"
  proof -
    have "(2::real) powi binade x < 2 powi (k + 53)" using binade_bounds(1) [OF nz] hi by linarith
    then show ?thesis by (simp add: pow2_less_iff)
  qed
  ultimately have "ulp_exp x = k" using k by (simp add: ulp_exp_def)
  then show ?thesis using nz rne_unique [OF m] by (simp add: rnd_def)
qed

subsection \<open>Finite results and exact results\<close>

lemma pow2_less_huge: "j < 1024 \<Longrightarrow> 2 powi j < huge"
  unfolding huge_def by (simp only: pow2_less_iff)

lemma huge_pos: "0 < huge"
  unfolding huge_def by (rule pow2_pos)

lemma fl_cases:
  obtains (pos) "fl x = PosInf" "huge \<le> rnd x"
  | (neg) "fl x = NegInf" "rnd x \<le> - huge"
  | (fin) "fl x = Fin (rnd x)" "\<bar>rnd x\<bar> < huge"
proof (cases "huge \<le> rnd x")
  case True
  then show ?thesis using pos by (simp add: fl_def)
next
  case False
  show ?thesis
  proof (cases "rnd x \<le> - huge")
    case True
    then show ?thesis using neg \<open>\<not> huge \<le> rnd x\<close> by (simp add: fl_def)
  next
    case False
    then have "\<bar>rnd x\<bar> < huge" using \<open>\<not> huge \<le> rnd x\<close> by linarith
    then show ?thesis using fin False \<open>\<not> huge \<le> rnd x\<close> by (simp add: fl_def)
  qed
qed

lemma fl_Fin:
  assumes "\<bar>rnd x\<bar> < huge"
  shows "fl x = Fin (rnd x)"
proof -
  have "\<not> huge \<le> rnd x" "\<not> rnd x \<le> - huge" using assms by linarith+
  then show ?thesis by (simp add: fl_def)
qed

lemma fl_small:
  assumes "\<bar>x\<bar> \<le> 2 powi j" "- 1022 \<le> j" "j \<le> 1000"
  shows "fl x = Fin (rnd x)"
proof (rule fl_Fin)
  have "(2::real) powi (j - 53) \<le> 2 powi j" by (simp add: pow2_le_iff)
  then have "\<bar>rnd x\<bar> \<le> 2 * 2 powi j" using rnd_error [OF assms(1,2)] assms(1) by linarith
  also have "\<dots> = 2 powi (j + 1)" by (simp add: power_int_add)
  also have "\<dots> < huge" using assms(3) by (intro pow2_less_huge) simp
  finally show "\<bar>rnd x\<bar> < huge" .
qed

lemma fl_exact:
  assumes "x = of_int m * 2 powi k" "\<bar>m\<bar> < 2 ^ 53" "- 1074 \<le> k" "\<bar>x\<bar> < huge"
  shows "fl x = Fin x"
  using rnd_exact [OF assms(1-3)] assms(4) fl_Fin [of x] by simp

lemma fl_of_int:
  assumes "\<bar>m\<bar> < 2 ^ 53"
  shows "fl (of_int m) = Fin (of_int m)"
proof (rule fl_exact [of _ m 0])
  have "\<bar>real_of_int m\<bar> < 2 ^ 53" using assms by (metis of_int_abs of_int_less_numeral_power_cancel_iff)
  also have "\<dots> = 2 powi 53" by simp
  also have "\<dots> < huge" by (intro pow2_less_huge) simp
  finally show "\<bar>real_of_int m\<bar> < huge" .
qed (use assms in auto)

lemma fl_numeral [simp]:
  "(numeral n :: int) < 2 ^ 53 \<Longrightarrow> fl (numeral n) = Fin (numeral n)"
  "(numeral n :: int) < 2 ^ 53 \<Longrightarrow> fl (- numeral n) = Fin (- numeral n)"
  "fl 0 = Fin 0" "fl 1 = Fin 1"
  using fl_of_int [of "numeral n"] fl_of_int [of "- numeral n"] fl_of_int [of 0] fl_of_int [of 1]
  by simp_all

lemma sub64_Fin [simp]: "sub64 (Fin a) (Fin b) = fl (a - b)"
  by (simp add: sub64_def)

lemma sqrt_900: "sqrt 900 = 30"
  by (rule real_sqrt_unique) simp_all

subsection \<open>The computed distance against the threshold 30\<close>

lemma sq64_small:
  assumes "\<bar>a\<bar> \<le> 32"
  shows "\<exists>p. mul64 (fl a) (fl a) = Fin p \<and> 0 \<le> p \<and> \<bar>p - a * a\<bar> \<le> 1 / 2 ^ 40"
proof -
  define y where "y = rnd a"
  have a5: "\<bar>a\<bar> \<le> 2 powi 5" using assms by simp
  have e1: "\<bar>y - a\<bar> \<le> 1 / 2 ^ 48" using rnd_error [OF a5] by (simp add: y_def)
  have f1: "fl a = Fin y" using fl_small [OF a5] by (simp add: y_def)
  have y33: "\<bar>y\<bar> \<le> 33" using e1 assms by (simp; argo)
  have "\<bar>y * y\<bar> = \<bar>y\<bar> * \<bar>y\<bar>" by (simp add: abs_mult)
  also have "\<dots> \<le> 33 * 33" using y33 by (intro mult_mono) auto
  finally have yy: "\<bar>y * y\<bar> \<le> 2 powi 11" by simp
  define z where "z = rnd (y * y)"
  have e2: "\<bar>z - y * y\<bar> \<le> 1 / 2 ^ 42" using rnd_error [OF yy] by (simp add: z_def)
  have f2: "fl (y * y) = Fin z" using fl_small [OF yy] by (simp add: z_def)
  have z0: "0 \<le> z" unfolding z_def by (rule rnd_nonneg) simp
  have "\<bar>y * y - a * a\<bar> = \<bar>y - a\<bar> * \<bar>y + a\<bar>"
    by (simp add: abs_mult [symmetric] algebra_simps)
  also have "\<dots> \<le> (1 / 2 ^ 48) * 65"
    using e1 y33 assms by (intro mult_mono) auto
  finally have e3: "\<bar>y * y - a * a\<bar> \<le> 65 / 2 ^ 48" by simp
  have "\<bar>z - a * a\<bar> \<le> 1 / 2 ^ 40" using e2 e3 by (simp; argo)
  then show ?thesis using f1 f2 z0 by simp
qed

lemma sq64_large:
  assumes "31 \<le> \<bar>a\<bar>"
  shows "mul64 (fl a) (fl a) = PosInf \<or> (\<exists>p. mul64 (fl a) (fl a) = Fin p \<and> 900 \<le> p)"
proof (cases a rule: fl_cases)
  case pos
  then show ?thesis by simp
next
  case neg
  then show ?thesis by simp
next
  case fin
  define y where "y = rnd a"
  have g31: "(31::real) = of_int 31 * 2 powi 0" by simp
  have "31 \<le> \<bar>y\<bar>"
  proof (cases "0 \<le> a")
    case True
    then have "31 \<le> rnd a" using assms by (intro rnd_ge_grid [OF g31]) auto
    then show ?thesis by (simp add: y_def)
  next
    case False
    then have "rnd a \<le> - 31" using assms by (intro rnd_le_grid [OF g31]) auto
    then show ?thesis by (simp add: y_def)
  qed
  then have "31 * 31 \<le> \<bar>y\<bar> * \<bar>y\<bar>" by (intro mult_mono) auto
  then have yy: "900 \<le> y * y" by (simp add: abs_mult [symmetric])
  have g900: "(900::real) = of_int 900 * 2 powi 0" by simp
  have z: "900 \<le> rnd (y * y)" using yy by (intro rnd_ge_grid [OF g900]) auto
  show ?thesis
  proof (cases "y * y" rule: fl_cases)
    case pos
    then show ?thesis using fin by (simp add: y_def)
  next
    case neg
    then show ?thesis using z huge_pos by linarith
  next
    case fin2: fin
    then show ?thesis using fin z by (simp add: y_def)
  qed
qed

lemma sq64_any:
  "mul64 (fl a) (fl a) = PosInf \<or> (\<exists>p. mul64 (fl a) (fl a) = Fin p \<and> 0 \<le> p)"
proof (cases "\<bar>a\<bar> \<le> 32")
  case True
  then show ?thesis using sq64_small [of a] by blast
next
  case False
  then have "31 \<le> \<bar>a\<bar>" by simp
  then show ?thesis using sq64_large [of a] by force
qed

lemma sqrt_rnd_ge_30:
  assumes "900 \<le> s"
  shows "\<not> less64 (sqrt64 (Fin s)) (Fin 30)"
proof -
  have "sqrt 900 \<le> sqrt s" using assms by (simp only: real_sqrt_le_iff)
  then have s30: "30 \<le> sqrt s" by (simp add: sqrt_900)
  have g30: "(30::real) = of_int 30 * 2 powi 0" by simp
  have r: "30 \<le> rnd (sqrt s)" using s30 by (intro rnd_ge_grid [OF g30]) auto
  show ?thesis
  proof (cases "sqrt s" rule: fl_cases)
    case pos
    then show ?thesis using assms by simp
  next
    case neg
    then show ?thesis using r huge_pos by linarith
  next
    case fin
    then show ?thesis using assms r by simp
  qed
qed

lemma far64:
  assumes "900 + 1 / 2 ^ 39 \<le> a * a + b * b"
  shows "\<not> less64 (sqrt64 (add64 (mul64 (fl a) (fl a)) (mul64 (fl b) (fl b)))) (Fin 30)"
proof -
  consider (inf) "mul64 (fl a) (fl a) = PosInf \<or> mul64 (fl b) (fl b) = PosInf"
    | (fin) p q where "mul64 (fl a) (fl a) = Fin p" "mul64 (fl b) (fl b) = Fin q" "0 \<le> p" "0 \<le> q"
    using sq64_any [of a] sq64_any [of b] by blast
  then show ?thesis
  proof cases
    case inf
    then have "add64 (mul64 (fl a) (fl a)) (mul64 (fl b) (fl b)) = PosInf"
      using sq64_any [of a] sq64_any [of b] by auto
    then show ?thesis by simp
  next
    case fin
    have pq: "900 \<le> p + q"
    proof (cases "31 \<le> \<bar>a\<bar> \<or> 31 \<le> \<bar>b\<bar>")
      case True
      then show ?thesis using sq64_large [of a] sq64_large [of b] fin by auto
    next
      case False
      then have "\<bar>a\<bar> \<le> 32" "\<bar>b\<bar> \<le> 32" by simp_all
      then have "\<bar>p - a * a\<bar> \<le> 1 / 2 ^ 40" "\<bar>q - b * b\<bar> \<le> 1 / 2 ^ 40"
        using sq64_small [of a] sq64_small [of b] fin by auto
      then show ?thesis using assms by (simp; argo)
    qed
    have g900: "(900::real) = of_int 900 * 2 powi 0" by simp
    have s: "900 \<le> rnd (p + q)" using pq by (intro rnd_ge_grid [OF g900]) auto
    show ?thesis
    proof (cases "p + q" rule: fl_cases)
      case pos
      then show ?thesis using fin by simp
    next
      case neg
      then show ?thesis using s huge_pos by linarith
    next
      case fin3: fin
      then show ?thesis using fin sqrt_rnd_ge_30 [OF s] by simp
    qed
  qed
qed

lemma near64:
  assumes "a * a + b * b \<le> 900 - 1 / 2 ^ 37"
  shows "less64 (sqrt64 (add64 (mul64 (fl a) (fl a)) (mul64 (fl b) (fl b)))) (Fin 30)"
proof -
  have aa: "0 \<le> a * a" and bb: "0 \<le> b * b" by simp_all
  have c37: "(0::real) \<le> 1 / 2 ^ 37" by simp
  have "a * a \<le> 32 * 32" "b * b \<le> 32 * 32" using assms aa bb c37 by linarith+
  then have "\<bar>a\<bar> * \<bar>a\<bar> \<le> 32 * 32" "\<bar>b\<bar> * \<bar>b\<bar> \<le> 32 * 32" by (simp_all add: abs_mult [symmetric])
  then have ab: "\<bar>a\<bar> \<le> 32" "\<bar>b\<bar> \<le> 32"
    by (metis abs_ge_zero mult_mono not_le less_imp_le zero_le_numeral mult_strict_mono' less_le_trans)+
  obtain p q where p: "mul64 (fl a) (fl a) = Fin p" "0 \<le> p" "\<bar>p - a * a\<bar> \<le> 1 / 2 ^ 40"
    and q: "mul64 (fl b) (fl b) = Fin q" "0 \<le> q" "\<bar>q - b * b\<bar> \<le> 1 / 2 ^ 40"
    using sq64_small [OF ab(1)] sq64_small [OF ab(2)] by blast
  have pq: "p + q \<le> 900 - 1 / 2 ^ 37 + 1 / 2 ^ 39" using p(3) q(3) assms by (simp; argo)
  then have pq10: "\<bar>p + q\<bar> \<le> 2 powi 10" using p(2) q(2) by (simp; argo)
  define s where "s = rnd (p + q)"
  have e: "\<bar>s - (p + q)\<bar> \<le> 1 / 2 ^ 43" using rnd_error [OF pq10] by (simp add: s_def)
  have f: "fl (p + q) = Fin s" using fl_small [OF pq10] by (simp add: s_def)
  have s0: "0 \<le> s" unfolding s_def using p(2) q(2) by (intro rnd_nonneg) simp
  define c :: real where "c = 30 - 1 / 2 ^ 47"
  have c0: "0 \<le> c" by (simp add: c_def)
  have s1: "s \<le> c * c" using e pq unfolding c_def by (simp; argo)
  have "sqrt s \<le> sqrt (c * c)" using s1 by (simp only: real_sqrt_le_iff)
  also have "sqrt (c * c) = c" using c0 by simp
  finally have r1: "sqrt s \<le> 30 - 1 / 2 ^ 47" by (simp add: c_def)
  have r0: "0 \<le> sqrt s" using s0 by simp
  have r5: "\<bar>sqrt s\<bar> \<le> 2 powi 5" using r0 r1 by (simp; argo)
  have e2: "\<bar>rnd (sqrt s) - sqrt s\<bar> \<le> 1 / 2 ^ 48" using rnd_error [OF r5] by simp
  have f2: "fl (sqrt s) = Fin (rnd (sqrt s))" using fl_small [OF r5] by simp
  have "rnd (sqrt s) < 30" using e2 r1 by (simp; argo)
  then show ?thesis using p(1) q(1) f f2 s0 by simp
qed

lemma sq_bound:
  assumes "\<bar>i :: int\<bar> \<le> 2 ^ 23"
  shows "\<bar>i * i\<bar> \<le> 2 ^ 46"
proof -
  have "\<bar>i\<bar> * \<bar>i\<bar> \<le> 2 ^ 23 * 2 ^ 23"
    using assms by (intro mult_mono) simp_all
  then show ?thesis by (simp add: abs_mult)
qed

lemma sq64_int:
  assumes "\<bar>i\<bar> \<le> 2 ^ 23"
  shows "mul64 (fl (of_int i)) (fl (of_int i)) = Fin (of_int (i * i))"
proof -
  have i: "\<bar>i\<bar> < 2 ^ 53" using assms by simp
  have ii: "\<bar>i * i\<bar> < 2 ^ 53" using sq_bound [OF assms] by simp
  have "mul64 (fl (of_int i)) (fl (of_int i)) = fl (of_int (i * i))"
    by (simp add: fl_of_int [OF i])
  then show ?thesis by (simp only: fl_of_int [OF ii])
qed

lemma sum64_int:
  assumes "\<bar>i\<bar> \<le> 2 ^ 23" "\<bar>j\<bar> \<le> 2 ^ 23"
  shows "add64 (mul64 (fl (of_int i)) (fl (of_int i))) (mul64 (fl (of_int j)) (fl (of_int j)))
           = Fin (of_int (i * i + j * j))"
proof -
  have s: "\<bar>i * i + j * j\<bar> < 2 ^ 53"
    using sq_bound [OF assms(1)] sq_bound [OF assms(2)] by simp
  have "add64 (Fin (of_int (i * i))) (Fin (of_int (j * j))) = fl (of_int (i * i + j * j))"
    by simp
  then show ?thesis by (simp only: sq64_int [OF assms(1)] sq64_int [OF assms(2)] fl_of_int [OF s])
qed

lemma near64_int:
  "less64 (sqrt64 (add64 (mul64 (fl (of_int i)) (fl (of_int i))) (mul64 (fl (of_int j)) (fl (of_int j)))))
     (Fin 30) \<longleftrightarrow> i * i + j * j < 900"
proof -
  let ?t = "less64 (sqrt64 (add64 (mul64 (fl (of_int i)) (fl (of_int i)))
                                  (mul64 (fl (of_int j)) (fl (of_int j))))) (Fin 30)"
  consider (lt) "i * i + j * j \<le> 899" | (eq) "i * i + j * j = 900" | (gt) "901 \<le> i * i + j * j"
    by linarith
  then show ?thesis
  proof cases
    case lt
    then have "real_of_int (i * i + j * j) \<le> 899" by linarith
    then have "real_of_int i * real_of_int i + real_of_int j * real_of_int j \<le> 900 - 1 / 2 ^ 37"
      by simp
    then have ?t by (rule near64)
    then show ?thesis using lt by simp
  next
    case gt
    then have "901 \<le> real_of_int (i * i + j * j)" by linarith
    then have "900 + 1 / 2 ^ 39 \<le> real_of_int i * real_of_int i + real_of_int j * real_of_int j"
      by simp
    then have "\<not> ?t" by (rule far64)
    then show ?thesis using gt by simp
  next
    case eq
    have "0 \<le> i * i" "0 \<le> j * j" by simp_all
    then have "i * i \<le> 900" "j * j \<le> 900" using eq by linarith+
    then have "i\<^sup>2 \<le> 30\<^sup>2" "j\<^sup>2 \<le> 30\<^sup>2" by (simp_all add: power2_eq_square)
    then have "\<bar>i\<bar> \<le> \<bar>30\<bar>" "\<bar>j\<bar> \<le> \<bar>30\<bar>" by (simp_all only: abs_le_square_iff)
    then have "\<bar>i\<bar> \<le> 2 ^ 23" "\<bar>j\<bar> \<le> 2 ^ 23" by simp_all
    then have "add64 (mul64 (fl (of_int i)) (fl (of_int i))) (mul64 (fl (of_int j)) (fl (of_int j)))
           = Fin 900"
      using sum64_int [of i j] eq by simp
    then have "\<not> ?t" by (simp add: sqrt_900)
    then show ?thesis using eq by simp
  qed
qed

subsection \<open>The computed weight\<close>

lemma sqrt64_range:
  assumes "0 \<le> s"
  shows "sqrt64 (Fin s) = PosInf \<or> (\<exists>r. sqrt64 (Fin s) = Fin r \<and> 0 \<le> r)"
proof (cases "sqrt s" rule: fl_cases)
  case pos then show ?thesis using assms by simp
next
  case neg
  have "0 \<le> rnd (sqrt s)" by (rule rnd_nonneg) (use assms in simp)
  with neg huge_pos show ?thesis by linarith
next
  case fin
  have "0 \<le> rnd (sqrt s)" by (rule rnd_nonneg) (use assms in simp)
  with fin show ?thesis using assms by simp
qed

lemma dist64_range:
  "dist64 a b = PosInf \<or> (\<exists>r. dist64 a b = Fin r \<and> 0 \<le> r)"
proof -
  from sq64_any [of a] sq64_any [of b]
  consider "add64 (mul64 (fl a) (fl a)) (mul64 (fl b) (fl b)) = PosInf"
    | p q where "mul64 (fl a) (fl a) = Fin p" "mul64 (fl b) (fl b) = Fin q" "0 \<le> p" "0 \<le> q"
    by (cases "mul64 (fl a) (fl a)"; cases "mul64 (fl b) (fl b)") auto
  then show ?thesis
  proof cases
    case 1 then show ?thesis by (simp add: dist64_def)
  next
    case 2
    have nn: "0 \<le> rnd (p + q)" by (rule rnd_nonneg) (use 2 in simp)
    show ?thesis
    proof (cases "p + q" rule: fl_cases)
      case pos then show ?thesis using 2 by (simp add: dist64_def)
    next
      case neg with nn huge_pos show ?thesis by linarith
    next
      case fin
      then have "dist64 a b = sqrt64 (Fin (rnd (p + q)))" using 2 by (simp add: dist64_def)
      then show ?thesis using sqrt64_range [OF nn] by simp
    qed
  qed
qed

lemma weight_range:
  "Math_round (dist64 a b) = PosInf \<or> (\<exists>n. Math_round (dist64 a b) = Fin (of_nat n))"
proof -
  from dist64_range [of a b] show ?thesis
  proof (elim disjE exE conjE)
    assume "dist64 a b = PosInf" then show ?thesis by simp
  next
    fix r assume r: "dist64 a b = Fin r" "0 \<le> r"
    then have "0 \<le> \<lfloor>r + 1 / 2\<rfloor>" by simp
    then have "real_of_int \<lfloor>r + 1 / 2\<rfloor> = of_nat (nat \<lfloor>r + 1 / 2\<rfloor>)" by simp
    then show ?thesis using r(1) by (metis Math_round.simps(1))
  qed
qed

lemma of_to_weight:
  "of_weight (to_weight (Math_round (dist64 a b))) = Math_round (dist64 a b)"
  using weight_range [of a b] by auto

lemma Math_round_sqrt64:
  assumes lo: "(of_int w - 1 / 4) * (of_int w - 1 / 4) \<le> s"
    and hi: "s \<le> (of_int w + 1 / 4) * (of_int w + 1 / 4)"
    and w: "1 \<le> w" "w \<le> 2 ^ 20"
  shows "Math_round (sqrt64 (Fin s)) = Fin (of_int w)"
proof -
  define c :: real where "c = of_int w"
  have c: "1 \<le> c" "c \<le> 2 ^ 20" using w unfolding c_def by (simp_all add: of_int_le_numeral_power_cancel_iff)
  have "0 \<le> (of_int w - 1 / 4) * (of_int w - 1 / 4 :: real)" by (rule zero_le_square)
  then have s0: "0 \<le> s" using lo by linarith
  have lo': "(c - 1 / 4) * (c - 1 / 4) \<le> s" and hi': "s \<le> (c + 1 / 4) * (c + 1 / 4)"
    using lo hi unfolding c_def by simp_all
  have "sqrt ((c - 1 / 4) * (c - 1 / 4)) \<le> sqrt s" using lo' by (rule real_sqrt_le_mono)
  moreover have "sqrt ((c - 1 / 4) * (c - 1 / 4)) = c - 1 / 4" using c by simp
  ultimately have l: "c - 1 / 4 \<le> sqrt s" by simp
  have "sqrt s \<le> sqrt ((c + 1 / 4) * (c + 1 / 4))" using hi' by (rule real_sqrt_le_mono)
  moreover have "sqrt ((c + 1 / 4) * (c + 1 / 4)) = c + 1 / 4" using c by simp
  ultimately have h: "sqrt s \<le> c + 1 / 4" by simp
  have b: "\<bar>sqrt s\<bar> \<le> 2 powi 21" using l h c by simp
  have e: "\<bar>rnd (sqrt s) - sqrt s\<bar> \<le> 2 powi (21 - 53)" by (rule rnd_error [OF b]) simp
  have f: "fl (sqrt s) = Fin (rnd (sqrt s))" by (rule fl_small [OF b]) simp_all
  have "c - 1 / 2 \<le> rnd (sqrt s) \<and> rnd (sqrt s) < c + 1 / 2"
    using e l h by (simp; argo)
  then have "\<lfloor>rnd (sqrt s) + 1 / 2\<rfloor> = w" unfolding c_def by (intro floor_unique) (simp_all; argo)+
  then show ?thesis using f s0 by simp
qed

lemma int_below_quarter:
  assumes "real_of_int S < of_int N + 1 / 4"
  shows "S \<le> N"
proof -
  have "real_of_int S < of_int (N + 1)" using assms by simp
  then have "S < N + 1" by (simp only: of_int_less_iff)
  then show ?thesis by simp
qed

lemma weight_int:
  assumes i: "\<bar>i\<bar> \<le> 2 ^ 23" and j: "\<bar>j\<bar> \<le> 2 ^ 23"
  shows "Math_round (dist64 (of_int i) (of_int j))
           = Fin (of_int (round (sqrt (of_int (i * i + j * j)))))"
proof -
  define S where "S = i * i + j * j"
  define s :: real where "s = of_int S"
  define n where "n = round (sqrt s)"
  define r where "r = rnd (sqrt s)"
  define c :: real where "c = of_int n + 1 / 2"
  define t :: real where "t = 1 / 2 ^ 28"
  have S0: "0 \<le> S" unfolding S_def by simp
  have "\<bar>i * i\<bar> \<le> 2 ^ 46" "\<bar>j * j\<bar> \<le> 2 ^ 46" using sq_bound [OF i] sq_bound [OF j] by simp_all
  then have S1: "S \<le> 2 ^ 47" unfolding S_def by simp
  have s0: "0 \<le> s" using S0 unfolding s_def by simp
  have "s \<le> 2 ^ 47" using S1 unfolding s_def by (simp only: of_int_le_numeral_power_cancel_iff)
  then have s1: "s \<le> 2 ^ 24 * 2 ^ 24" by simp
  have q0: "0 \<le> sqrt s" using s0 by simp
  have "sqrt s \<le> sqrt (2 ^ 24 * 2 ^ 24)" using s1 by (rule real_sqrt_le_mono)
  then have q1: "sqrt s \<le> 2 ^ 24" by simp
  have b: "\<bar>sqrt s\<bar> \<le> 2 powi 24" using q0 q1 by simp
  have e: "\<bar>r - sqrt s\<bar> \<le> 2 powi (24 - 53)" unfolding r_def by (rule rnd_error [OF b]) simp
  then have e': "\<bar>r - sqrt s\<bar> \<le> 1 / 2 ^ 29" by (simp add: power_int_minus)
  have f: "fl (sqrt s) = Fin r" unfolding r_def by (rule fl_small [OF b]) simp_all
  have r0: "0 \<le> r" unfolding r_def by (rule rnd_nonneg) (rule q0)
  have n_lo: "of_int n \<le> sqrt s + 1 / 2" and n_hi: "sqrt s + 1 / 2 < of_int n + 1"
    unfolding n_def round_def by linarith+
  have n0: "0 \<le> n" unfolding n_def round_def using q0 by simp
  have "real_of_int n \<le> 2 ^ 24 + 1 / 2" using n_lo q1 by linarith
  then have "real_of_int n < of_int (2 ^ 24 + 1)" by simp
  then have "n < 2 ^ 24 + 1" by (simp only: of_int_less_iff)
  then have n1: "n \<le> 2 ^ 24" by linarith
  have c0: "1 / 2 \<le> c" using n0 unfolding c_def by simp
  have c1: "c \<le> 2 ^ 25" using n1 unfolding c_def by simp
  have lower: "of_int n \<le> r + 1 / 2"
  proof (cases "n = 0")
    case True then show ?thesis using r0 by simp
  next
    case False
    then have n2: "0 < 2 * n - 1" using n0 by simp
    have n3: "2 * n - 1 < 2 ^ 53" using n1 by simp
    have "of_int (2 * n - 1) * 2 powi (- 1) \<le> r" unfolding r_def
    proof (rule rnd_ge_grid [OF refl n2 n3])
      show "real_of_int (2 * n - 1) * 2 powi - 1 \<le> sqrt s" using n_lo by (simp add: power_int_minus)
    qed simp
    then show ?thesis by (simp add: power_int_minus)
  qed
  have "sqrt s < c" using n_hi unfolding c_def by simp
  then have "sqrt s * sqrt s < c * c" using q0 by (intro mult_strict_mono') simp_all
  then have "s < c * c" using s0 by simp
  moreover have cc: "c * c = of_int (n * n + n) + 1 / 4" unfolding c_def by (simp add: algebra_simps)
  ultimately have "real_of_int S < of_int (n * n + n) + 1 / 4" unfolding s_def by simp
  then have "S \<le> n * n + n" by (rule int_below_quarter)
  then have s2: "s \<le> of_int (n * n + n)" unfolding s_def by (simp only: of_int_le_iff)
  have t0: "0 < t" unfolding t_def by simp
  have "c * t \<le> 2 ^ 25 * t" using c1 t0 by (intro mult_right_mono) simp_all
  then have ct: "c * t \<le> 1 / 8" unfolding t_def by simp
  have "(c - t) * (c - t) = c * c - 2 * (c * t) + t * t" by (simp add: algebra_simps)
  moreover have "0 \<le> t * t" by simp
  ultimately have "of_int (n * n + n) \<le> (c - t) * (c - t)" using cc ct
    by linarith
  then have "s \<le> (c - t) * (c - t)" using s2 by linarith
  then have "sqrt s \<le> sqrt ((c - t) * (c - t))" by (rule real_sqrt_le_mono)
  moreover have "0 \<le> c - t" using c0 unfolding t_def by simp
  ultimately have "sqrt s \<le> c - t" by simp
  moreover have "(1::real) / 2 ^ 29 < 1 / 2 ^ 28" by simp
  ultimately have "r < c" using e' unfolding t_def by linarith
  then have upper: "r + 1 / 2 < of_int n + 1" unfolding c_def by simp
  have "\<lfloor>r + 1 / 2\<rfloor> = n" using lower upper by (intro floor_unique) simp_all
  moreover have "dist64 (of_int i) (of_int j) = sqrt64 (Fin s)"
    unfolding dist64_def sum64_int [OF i j] s_def S_def ..
  moreover have "sqrt64 (Fin s) = Fin r" using f s0 by simp
  ultimately have "Math_round (dist64 (of_int i) (of_int j)) = Fin (of_int n)" by simp
  then show ?thesis unfolding n_def s_def S_def .
qed

subsection \<open>A position at the threshold\<close>

lemma fl_grid:
  assumes "x = of_int m * 2 powi k" "\<bar>m\<bar> < 2 ^ 53" "- 1074 \<le> k" "\<bar>x\<bar> \<le> 2 powi j" "j < 1024"
  shows "fl x = Fin x"
proof (rule fl_exact [OF assms(1-3)])
  show "\<bar>x\<bar> < huge" using assms(4) pow2_less_huge [OF assms(5)] by linarith
qed

lemma fl_nearest:
  assumes "2 powi (k + 52) \<le> \<bar>x\<bar>" "\<bar>x\<bar> < 2 powi (k + 53)" "- 1074 \<le> k" "k < 900"
    and "\<bar>x / 2 powi k - of_int m\<bar> < 1 / 2"
  shows "fl x = Fin (of_int m * 2 powi k)"
proof -
  have r: "rnd x = of_int m * 2 powi k" by (rule rnd_nearest [OF assms(1,2,3,5)])
  have "\<bar>x\<bar> \<le> 2 powi (k + 53)" using assms(2) by simp
  then have "fl x = Fin (rnd x)" by (rule fl_small) (use assms in simp_all)
  then show ?thesis by (simp only: r)
qed

lemma bx_dx: "fl (0 - (30 - 1 / 2 ^ 48)) = Fin (- (30 - 1 / 2 ^ 48))"
proof -
  have "fl (- (30 - 1 / 2 ^ 48)) = Fin (- (30 - 1 / 2 ^ 48))"
    by (rule fl_grid [of _ "- (30 * 2 ^ 48 - 1)" "- 48" 5]) (simp_all add: power_int_minus)
  then show ?thesis by simp
qed

lemma bx_dy: "fl (0 - 30 / 2 ^ 26) = Fin (- (30 / 2 ^ 26))"
proof -
  have "fl (- (30 / 2 ^ 26)) = Fin (- (30 / 2 ^ 26))"
    by (rule fl_grid [of _ "- 30" "- 26" 5]) (simp_all add: power_int_minus)
  then show ?thesis by simp
qed

lemma bx_dx2: "fl ((30 - 1 / 2 ^ 48) * (30 - 1 / 2 ^ 48)) = Fin (900 - 1 / 2 ^ 42)"
proof -
  have "fl ((30 - 1 / 2 ^ 48) * (30 - 1 / 2 ^ 48)) = Fin (of_int (900 * 2 ^ 43 - 2) * 2 powi (- 43))"
    by (rule fl_nearest) (simp_all add: power_int_minus)
  then show ?thesis by (simp add: power_int_minus)
qed

lemma bx_dy2: "fl (30 / 2 ^ 26 * (30 / 2 ^ 26)) = Fin (900 / 2 ^ 52)"
proof -
  have "fl (900 / 2 ^ 52) = Fin (900 / 2 ^ 52)"
    by (rule fl_grid [of _ "900" "- 52" 5]) (simp_all add: power_int_minus)
  then show ?thesis by simp
qed

lemma bx_sum: "fl (900 - 1 / 2 ^ 42 + 900 / 2 ^ 52) = Fin 900"
proof -
  have "fl (900 - 1 / 2 ^ 42 + 900 / 2 ^ 52) = Fin (of_int (900 * 2 ^ 43) * 2 powi (- 43))"
    by (rule fl_nearest) (simp_all add: power_int_minus)
  then show ?thesis by (simp add: power_int_minus)
qed

lemma bx_accept:
  "\<not> less64 (sqrt64 (add64
      (mul64 (sub64 (Fin 0) (Fin (30 - 1 / 2 ^ 48))) (sub64 (Fin 0) (Fin (30 - 1 / 2 ^ 48))))
      (mul64 (sub64 (Fin 0) (Fin (30 / 2 ^ 26))) (sub64 (Fin 0) (Fin (30 / 2 ^ 26)))))) (Fin 30)"
proof -
  have 1: "mul64 (sub64 (Fin 0) (Fin (30 - 1 / 2 ^ 48))) (sub64 (Fin 0) (Fin (30 - 1 / 2 ^ 48)))
        = Fin (900 - 1 / 2 ^ 42)"
    unfolding sub64_Fin bx_dx using bx_dx2 by simp
  have 2: "mul64 (sub64 (Fin 0) (Fin (30 / 2 ^ 26))) (sub64 (Fin 0) (Fin (30 / 2 ^ 26)))
        = Fin (900 / 2 ^ 52)"
    unfolding sub64_Fin bx_dy using bx_dy2 by simp
  show ?thesis unfolding 1 2 using bx_sum by (simp add: sqrt_900)
qed

lemma bx_exact: "sqrt ((0 - (30 - 1 / 2 ^ 48))\<^sup>2 + (0 - 30 / 2 ^ 26)\<^sup>2) < 30"
proof -
  have "(0 - (30 - 1 / 2 ^ 48))\<^sup>2 + (0 - 30 / 2 ^ 26)\<^sup>2 < (900 :: real)"
    by (simp add: power2_eq_square)
  then have "sqrt ((0 - (30 - 1 / 2 ^ 48))\<^sup>2 + (0 - 30 / 2 ^ 26)\<^sup>2) < sqrt 900"
    by (simp only: real_sqrt_less_iff)
  then show ?thesis by (simp only: sqrt_900)
qed

section \<open>Vertex insertion and edge creation\<close>

lemma round_sqrt_eq:
  assumes "(2 * real_of_int w - 1)\<^sup>2 \<le> 4 * s" "4 * s < (2 * real_of_int w + 1)\<^sup>2" "0 \<le> w"
  shows "round (sqrt s) = w"
proof (rule round_unique)
  have "(real_of_int w - 1 / 2)\<^sup>2 \<le> s" using assms(1) by (simp add: power2_eq_square algebra_simps)
  then have "real_of_int w - 1 / 2 \<le> sqrt s" by (rule real_le_rsqrt)
  then show "real_of_int w \<le> sqrt s + 1 / 2" by simp
  have "s < (real_of_int w + 1 / 2)\<^sup>2" using assms(2) by (simp add: power2_eq_square algebra_simps)
  moreover have "0 \<le> real_of_int w + 1 / 2" using assms(3) by simp
  ultimately have "sqrt s < real_of_int w + 1 / 2" by (intro real_less_lsqrt)
  then show "sqrt s - 1 / 2 < real_of_int w" by simp
qed

lemma distance64_eq: "distance64 v px py = dist64 (vx v - px) (vy v - py)"
  by (simp add: distance64_def dist64_def Let_def)

lemma euclid_square:
  "euclid v px py * euclid v px py = (vx v - px) * (vx v - px) + (vy v - py) * (vy v - py)"
proof -
  have "0 \<le> (vx v - px) * (vx v - px) + (vy v - py) * (vy v - py)"
    by (intro add_nonneg_nonneg zero_le_square)
  then show ?thesis by (simp add: euclid_def power2_eq_square)
qed

lemma euclid_nonneg: "0 \<le> euclid v px py"
  by (simp add: euclid_def)

lemma distance64_far:
  assumes "30 + 1 / 2 ^ 42 \<le> euclid v px py"
  shows "\<not> less64 (distance64 v px py) (Fin 30)"
proof -
  have "(30 + 1 / 2 ^ 42) * (30 + 1 / 2 ^ 42) \<le> euclid v px py * euclid v px py"
    using assms by (intro mult_mono) simp_all
  moreover have "(900 :: real) + 1 / 2 ^ 39 \<le> (30 + 1 / 2 ^ 42) * (30 + 1 / 2 ^ 42)" by simp
  ultimately have "900 + 1 / 2 ^ 39 \<le> (vx v - px) * (vx v - px) + (vy v - py) * (vy v - py)"
    unfolding euclid_square by linarith
  then show ?thesis unfolding distance64_eq dist64_def by (rule far64)
qed

lemma distance64_near:
  assumes "euclid v px py \<le> 30 - 1 / 2 ^ 42"
  shows "less64 (distance64 v px py) (Fin 30)"
proof -
  have "euclid v px py * euclid v px py \<le> (30 - 1 / 2 ^ 42) * (30 - 1 / 2 ^ 42)"
    using assms euclid_nonneg [of v px py] by (intro mult_mono) simp_all
  moreover have "(30 - 1 / 2 ^ 42) * (30 - 1 / 2 ^ 42) \<le> (900 :: real) - 1 / 2 ^ 37" by simp
  ultimately have "(vx v - px) * (vx v - px) + (vy v - py) * (vy v - py) \<le> 900 - 1 / 2 ^ 37"
    unfolding euclid_square by linarith
  then show ?thesis unfolding distance64_eq dist64_def by (rule near64)
qed

lemma distance64_int:
  assumes "vx v - px \<in> \<int>" "vy v - py \<in> \<int>"
  shows "less64 (distance64 v px py) (Fin 30) \<longleftrightarrow> euclid v px py < 30"
proof -
  obtain i j where i: "vx v - px = of_int i" and j: "vy v - py = of_int j"
    using assms by (auto elim!: Ints_cases)
  have "euclid v px py < 30 \<longleftrightarrow> euclid v px py * euclid v px py < 30 * 30"
  proof
    assume "euclid v px py < 30"
    then show "euclid v px py * euclid v px py < 30 * 30"
      using euclid_nonneg [of v px py] by (intro mult_strict_mono') simp_all
  next
    assume less: "euclid v px py * euclid v px py < 30 * 30"
    show "euclid v px py < 30"
    proof (rule ccontr)
      assume "\<not> euclid v px py < 30"
      then have "30 * 30 \<le> euclid v px py * euclid v px py"
        by (intro mult_mono) simp_all
      with less show False by simp
    qed
  qed
  also have "\<dots> \<longleftrightarrow> real_of_int (i * i + j * j) < 900"
    unfolding euclid_square i j by simp
  also have "\<dots> \<longleftrightarrow> i * i + j * j < 900" by linarith
  finally show ?thesis
    unfolding distance64_eq dist64_def i j near64_int by simp
qed

lemma tooClose_iff:
  "list_ex (\<lambda>v. let dx = sub64 (Fin (vx v)) (Fin px); dy = sub64 (Fin (vy v)) (Fin py)
                 in less64 (sqrt64 (add64 (mul64 dx dx) (mul64 dy dy))) (Fin MIN_DISTANCE)) vs
     \<longleftrightarrow> (\<exists>v\<in>set vs. less64 (distance64 v px py) (Fin 30))"
  by (simp add: list_ex_iff distance64_def MIN_DISTANCE_def Let_def)

lemma addVertex_eq:
  "addVertex g px py =
     (if \<exists>v\<in>set (vertices g). less64 (distance64 v px py) (Fin 30) then (- 1, g)
      else (int (length (vertices g)), g\<lparr>vertices := vertices g @ [\<lparr>vx = px, vy = py\<rparr>]\<rparr>))"
  unfolding addVertex_def tooClose_iff by (simp add: Let_def)

lemma addVertex_far:
  assumes "\<forall>v\<in>set (vertices g). 30 + 1 / 2 ^ 42 \<le> euclid v px py"
  shows "addVertex g px py =
           (int (length (vertices g)), g\<lparr>vertices := vertices g @ [\<lparr>vx = px, vy = py\<rparr>]\<rparr>)"
  unfolding addVertex_eq using assms distance64_far by auto

lemma addVertex_near:
  assumes "\<exists>v\<in>set (vertices g). euclid v px py \<le> 30 - 1 / 2 ^ 42"
  shows "addVertex g px py = (- 1, g)"
  unfolding addVertex_eq using assms distance64_near by auto

lemma addVertex_int:
  assumes "\<forall>v\<in>set (vertices g). vx v - px \<in> \<int> \<and> vy v - py \<in> \<int>"
  shows "addVertex g px py =
     (if \<exists>v\<in>set (vertices g). euclid v px py < 30 then (- 1, g)
      else (int (length (vertices g)), g\<lparr>vertices := vertices g @ [\<lparr>vx = px, vy = py\<rparr>]\<rparr>))"
proof -
  have "(\<exists>v\<in>set (vertices g). less64 (distance64 v px py) (Fin 30)) \<longleftrightarrow>
        (\<exists>v\<in>set (vertices g). euclid v px py < 30)"
    using assms distance64_int by blast
  then show ?thesis unfolding addVertex_eq by simp
qed

text \<open>
  Claim C5 as stated fails at the threshold. With a vertex at the origin, the position
  \<^verbatim>\<open>(30 - 2^-48, 30 * 2^-26)\<close>, whose coordinates are binary64 values, is closer than 30 to
  it, and \<^verbatim>\<open>addVertex\<close> accepts it: the computed squares are \<^verbatim>\<open>900 - 2^-42\<close> and
  \<^verbatim>\<open>900 * 2^-52\<close>, their computed sum is 900, and the square root of 900 is 30, which is not
  below 30.
\<close>

theorem addVertex_threshold_counterexample:
  "fl (30 - 1 / 2 ^ 48) = Fin (30 - 1 / 2 ^ 48) \<and> fl (30 / 2 ^ 26) = Fin (30 / 2 ^ 26) \<and>
   euclid \<lparr>vx = 0, vy = 0\<rparr> (30 - 1 / 2 ^ 48) (30 / 2 ^ 26) < 30 \<and>
   addVertex \<lparr>vertices = [\<lparr>vx = 0, vy = 0\<rparr>], edges = []\<rparr> (30 - 1 / 2 ^ 48) (30 / 2 ^ 26) =
     (1, \<lparr>vertices = [\<lparr>vx = 0, vy = 0\<rparr>, \<lparr>vx = 30 - 1 / 2 ^ 48, vy = 30 / 2 ^ 26\<rparr>], edges = []\<rparr>)"
proof (intro conjI)
  show "fl (30 - 1 / 2 ^ 48) = Fin (30 - 1 / 2 ^ 48)"
    by (rule fl_grid [of _ "30 * 2 ^ 48 - 1" "- 48" 5]) (simp_all add: power_int_minus)
  show "fl (30 / 2 ^ 26) = Fin (30 / 2 ^ 26)"
    by (rule fl_grid [of _ 30 "- 26" 5]) (simp_all add: power_int_minus)
  show "euclid \<lparr>vx = 0, vy = 0\<rparr> (30 - 1 / 2 ^ 48) (30 / 2 ^ 26) < 30"
    unfolding euclid_def using bx_exact by simp
  have "\<not> less64 (distance64 \<lparr>vx = 0, vy = 0\<rparr> (30 - 1 / 2 ^ 48) (30 / 2 ^ 26)) (Fin 30)"
    unfolding distance64_def Let_def using bx_accept by simp
  then show "addVertex \<lparr>vertices = [\<lparr>vx = 0, vy = 0\<rparr>], edges = []\<rparr> (30 - 1 / 2 ^ 48) (30 / 2 ^ 26) =
     (1, \<lparr>vertices = [\<lparr>vx = 0, vy = 0\<rparr>, \<lparr>vx = 30 - 1 / 2 ^ 48, vy = 30 / 2 ^ 26\<rparr>], edges = []\<rparr>)"
    unfolding addVertex_eq by simp
qed

text \<open>
  Claim C5, as the code has it. A vertex whose Euclidean distance to every existing vertex
  is at least \<^verbatim>\<open>30 + 2^-42\<close> is appended and gets the next index; a vertex whose distance to
  some existing vertex is at most \<^verbatim>\<open>30 - 2^-42\<close> is rejected: \<^verbatim>\<open>addVertex\<close> returns \<open>-1\<close>, its
  only failure value, and the graph is unchanged. When the coordinate differences to all
  existing vertices are integers, the threshold is exact: at least 30 (exactly 30
  included) is accepted, closer than 30 is rejected. Between the two margins, with other
  coordinates, the outcome is that of the rounded computation.
\<close>

theorem addVertex_separation:
  "((\<forall>v\<in>set (vertices g). 30 + 1 / 2 ^ 42 \<le> euclid v px py) \<longrightarrow>
      addVertex g px py =
        (int (length (vertices g)), g\<lparr>vertices := vertices g @ [\<lparr>vx = px, vy = py\<rparr>]\<rparr>)) \<and>
   ((\<exists>v\<in>set (vertices g). euclid v px py \<le> 30 - 1 / 2 ^ 42) \<longrightarrow> addVertex g px py = (- 1, g)) \<and>
   ((\<forall>v\<in>set (vertices g). vx v - px \<in> \<int> \<and> vy v - py \<in> \<int>) \<longrightarrow>
      ((\<forall>v\<in>set (vertices g). 30 \<le> euclid v px py) \<longrightarrow>
         addVertex g px py =
           (int (length (vertices g)), g\<lparr>vertices := vertices g @ [\<lparr>vx = px, vy = py\<rparr>]\<rparr>)) \<and>
      ((\<exists>v\<in>set (vertices g). euclid v px py < 30) \<longrightarrow> addVertex g px py = (- 1, g)))"
proof (intro conjI impI)
  assume "\<forall>v\<in>set (vertices g). 30 + 1 / 2 ^ 42 \<le> euclid v px py"
  then show "addVertex g px py =
        (int (length (vertices g)), g\<lparr>vertices := vertices g @ [\<lparr>vx = px, vy = py\<rparr>]\<rparr>)"
    by (rule addVertex_far)
next
  assume "\<exists>v\<in>set (vertices g). euclid v px py \<le> 30 - 1 / 2 ^ 42"
  then show "addVertex g px py = (- 1, g)" by (rule addVertex_near)
next
  assume i: "\<forall>v\<in>set (vertices g). vx v - px \<in> \<int> \<and> vy v - py \<in> \<int>"
    and "\<forall>v\<in>set (vertices g). 30 \<le> euclid v px py"
  then have "\<not> (\<exists>v\<in>set (vertices g). euclid v px py < 30)" by (simp add: not_less)
  then show "addVertex g px py =
        (int (length (vertices g)), g\<lparr>vertices := vertices g @ [\<lparr>vx = px, vy = py\<rparr>]\<rparr>)"
    unfolding addVertex_int [OF i] by simp
next
  assume i: "\<forall>v\<in>set (vertices g). vx v - px \<in> \<int> \<and> vy v - py \<in> \<int>"
    and "\<exists>v\<in>set (vertices g). euclid v px py < 30"
  then show "addVertex g px py = (- 1, g)"
    unfolding addVertex_int [OF i] by simp
qed

text \<open>
  With a vertex at the origin: \<open>(30, 0)\<close> and \<open>(30 + 1/1024, 0)\<close> are accepted,
  \<open>(29, 0)\<close> and \<open>(30 - 1/1024, 0)\<close> are rejected.
\<close>

theorem addVertex_separation_witness:
  "addVertex \<lparr>vertices = [\<lparr>vx = 0, vy = 0\<rparr>], edges = []\<rparr> 30 0 =
     (1, \<lparr>vertices = [\<lparr>vx = 0, vy = 0\<rparr>, \<lparr>vx = 30, vy = 0\<rparr>], edges = []\<rparr>) \<and>
   addVertex \<lparr>vertices = [\<lparr>vx = 0, vy = 0\<rparr>], edges = []\<rparr> (30 + 1 / 1024) 0 =
     (1, \<lparr>vertices = [\<lparr>vx = 0, vy = 0\<rparr>, \<lparr>vx = 30 + 1 / 1024, vy = 0\<rparr>], edges = []\<rparr>) \<and>
   addVertex \<lparr>vertices = [\<lparr>vx = 0, vy = 0\<rparr>], edges = []\<rparr> 29 0 =
     (- 1, \<lparr>vertices = [\<lparr>vx = 0, vy = 0\<rparr>], edges = []\<rparr>) \<and>
   addVertex \<lparr>vertices = [\<lparr>vx = 0, vy = 0\<rparr>], edges = []\<rparr> (30 - 1 / 1024) 0 =
     (- 1, \<lparr>vertices = [\<lparr>vx = 0, vy = 0\<rparr>], edges = []\<rparr>)"
proof -
  have a: "euclid \<lparr>vx = 0, vy = 0\<rparr> 30 0 = 30" by (simp add: euclid_def)
  have b: "euclid \<lparr>vx = 0, vy = 0\<rparr> (30721 / 1024) 0 = 30721 / 1024" by (simp add: euclid_def)
  have c: "euclid \<lparr>vx = 0, vy = 0\<rparr> 29 0 = 29" by (simp add: euclid_def)
  have d: "euclid \<lparr>vx = 0, vy = 0\<rparr> (30719 / 1024) 0 = 30719 / 1024" by (simp add: euclid_def)
  show ?thesis
    using addVertex_separation [of "\<lparr>vertices = [\<lparr>vx = 0, vy = 0\<rparr>], edges = []\<rparr>" 30 0]
      addVertex_separation [of "\<lparr>vertices = [\<lparr>vx = 0, vy = 0\<rparr>], edges = []\<rparr>" "30 + 1 / 1024" 0]
      addVertex_separation [of "\<lparr>vertices = [\<lparr>vx = 0, vy = 0\<rparr>], edges = []\<rparr>" 29 0]
      addVertex_separation [of "\<lparr>vertices = [\<lparr>vx = 0, vy = 0\<rparr>], edges = []\<rparr>" "30 - 1 / 1024" 0]
    by (simp add: a b c d)
qed

text \<open>
  Claim C10. With no vertex yet, insertion at any coordinates succeeds and returns
  index 0.
\<close>

theorem addVertex_empty:
  "addVertex \<lparr>vertices = [], edges = es\<rparr> px py =
     (0, \<lparr>vertices = [\<lparr>vx = px, vy = py\<rparr>], edges = es\<rparr>)"
  by (simp add: addVertex_def)

lemma exists_iff:
  "list_ex (\<lambda>e. (v1 e = a \<and> v2 e = b) \<or> (v1 e = b \<and> v2 e = a)) es
     \<longleftrightarrow> (\<exists>e\<in>set es. {v1 e, v2 e} = {a, b})"
  by (simp add: list_ex_iff doubleton_eq_iff)

lemma addEdge_eq:
  "addEdge g a b =
     (if a \<noteq> b \<and> in_range (length (vertices g)) a \<and> in_range (length (vertices g)) b \<and>
         \<not> (\<exists>e\<in>set (edges g). {v1 e, v2 e} = {a, b})
      then (True, g\<lparr>edges := edges g @
              [\<lparr>v1 = min a b, v2 = max a b,
                weight = to_weight (Math_round (distance64 (vertices g ! nat a)
                                      (vx (vertices g ! nat b)) (vy (vertices g ! nat b))))\<rparr>]\<rparr>)
      else (False, g))"
  unfolding addEdge_def exists_iff
  by (simp add: in_range_def Let_def distance64_def not_le not_less)

text \<open>
  The stored weight is the computed one: converting a value of \<^verbatim>\<open>Math.round(Math.sqrt(...))\<close>
  to an extended natural number and back changes nothing.
\<close>

lemma weight_roundtrip:
  "of_weight (to_weight (Math_round (distance64 v px py))) = Math_round (distance64 v px py)"
  unfolding distance64_eq by (rule of_to_weight)

lemma weight_int_euclid:
  assumes "vx v - px = of_int i" "vy v - py = of_int j" "\<bar>i\<bar> \<le> 2 ^ 23" "\<bar>j\<bar> \<le> 2 ^ 23"
  shows "to_weight (Math_round (distance64 v px py)) = enat (nat (round (euclid v px py)))"
proof -
  have "euclid v px py = sqrt (of_int (i * i + j * j))"
    by (simp add: euclid_def assms(1,2) power2_eq_square)
  moreover have "Math_round (distance64 v px py)
      = Fin (of_int (round (sqrt (of_int (i * i + j * j)))))"
    unfolding distance64_eq assms(1,2) using assms(3,4) by (rule weight_int)
  ultimately show ?thesis by simp
qed

text \<open>
  Claim C3, as the code has it. \<^verbatim>\<open>addEdge\<close> returns \<open>True\<close> exactly when the two identifiers
  differ, both lie in \<open>[0, vertex count)\<close> and no edge on the same unordered pair exists; the
  edge is then appended with its endpoints in canonical order, and its weight is
  \<^verbatim>\<open>Math.round\<close> of the distance as computed in binary64. In every other case it returns
  \<open>False\<close> and the graph is unchanged. The returned boolean carries neither the weight nor
  the reason of a rejection. When the coordinate differences are integers of magnitude at
  most \<^verbatim>\<open>2^23\<close>, the computed weight is the Euclidean distance rounded to the nearest integer.
\<close>

theorem addEdge_outcome:
  "addEdge g a b =
     (if a \<noteq> b \<and> in_range (length (vertices g)) a \<and> in_range (length (vertices g)) b \<and>
         \<not> (\<exists>e\<in>set (edges g). {v1 e, v2 e} = {a, b})
      then (True, g\<lparr>edges := edges g @
              [\<lparr>v1 = min a b, v2 = max a b,
                weight = to_weight (Math_round (distance64 (vertices g ! nat a)
                                      (vx (vertices g ! nat b)) (vy (vertices g ! nat b))))\<rparr>]\<rparr>)
      else (False, g)) \<and>
   (vx v - px = of_int i \<and> vy v - py = of_int j \<and> \<bar>i\<bar> \<le> 2 ^ 23 \<and> \<bar>j\<bar> \<le> 2 ^ 23 \<longrightarrow>
      to_weight (Math_round (distance64 v px py)) = enat (nat (round (euclid v px py))))"
  using addEdge_eq weight_int_euclid by blast

text \<open>
  Claim C3 as stated fails: a self-loop, an index out of range and a duplicate pair are
  rejected with one and the same outcome.
\<close>

theorem addEdge_reason_counterexample:
  "addEdge cx_graph 0 0 = (False, cx_graph) \<and>
   addEdge cx_graph 0 5 = (False, cx_graph) \<and>
   addEdge cx_graph 1 0 = (False, cx_graph)"
  by (simp add: addEdge_def cx_graph_def)

text \<open>
  Connecting 1 to 0 stores the edge \<open>(0, 1)\<close> of weight 100; asking again is rejected.
\<close>

theorem addEdge_outcome_witness:
  "addEdge \<lparr>vertices = [\<lparr>vx = 0, vy = 0\<rparr>, \<lparr>vx = 100, vy = 0\<rparr>], edges = []\<rparr> 1 0 =
     (True, cx_graph) \<and> addEdge cx_graph 1 0 = (False, cx_graph)"
proof -
  have "round (euclid \<lparr>vx = 100, vy = 0\<rparr> 0 0) = 100" by (simp add: euclid_def)
  then show ?thesis
    using addEdge_outcome [of "\<lparr>vertices = [\<lparr>vx = 0, vy = 0\<rparr>, \<lparr>vx = 100, vy = 0\<rparr>], edges = []\<rparr>" 1 0
        "\<lparr>vx = 100, vy = 0\<rparr>" 0 100 0 0]
      addEdge_outcome [of cx_graph 1 0 "\<lparr>vx = 100, vy = 0\<rparr>" 0 100 0 0]
    by (simp add: cx_graph_def in_range_def insert_commute numeral_eq_enat)
qed

text \<open>
  With other coordinates the computed weight can differ from the rounded Euclidean
  distance. From \<open>(0, 0)\<close> to \<^verbatim>\<open>(30.5 - 2^-48, 30 * 2^-26)\<close> the distance is below 30.5 and
  rounds to 30; the computed distance is 30.5 and the stored weight is 31.
\<close>

lemma sqrt_3721_4: "sqrt (3721 / 4) = 61 / 2"
  by (rule real_sqrt_unique) (simp_all add: power2_eq_square)

lemma weight_tie_computed:
  "Math_round (distance64 \<lparr>vx = 0, vy = 0\<rparr> (61 / 2 - 1 / 2 ^ 48) (30 / 2 ^ 26)) = Fin 31"
proof -
  have dx: "fl (0 - (61 / 2 - 1 / 2 ^ 48)) = Fin (- (61 / 2 - 1 / 2 ^ 48))"
  proof -
    have "fl (- (61 / 2 - 1 / 2 ^ 48)) = Fin (- (61 / 2 - 1 / 2 ^ 48))"
      by (rule fl_grid [of _ "- (61 * 2 ^ 47 - 1)" "- 48" 5]) (simp_all add: power_int_minus)
    then show ?thesis by simp
  qed
  have "fl ((61 / 2 - 1 / 2 ^ 48) * (61 / 2 - 1 / 2 ^ 48))
      = Fin (of_int (3721 * 2 ^ 41 - 2) * 2 powi (- 43))"
    by (rule fl_nearest) (simp_all add: power_int_minus)
  then have dx2: "fl ((61 / 2 - 1 / 2 ^ 48) * (61 / 2 - 1 / 2 ^ 48)) = Fin (3721 / 4 - 1 / 2 ^ 42)"
    by (simp add: power_int_minus)
  have "fl (3721 / 4 - 1 / 2 ^ 42 + 900 / 2 ^ 52) = Fin (of_int (3721 * 2 ^ 41) * 2 powi (- 43))"
    by (rule fl_nearest) (simp_all add: power_int_minus)
  then have sum: "fl (3721 / 4 - 1 / 2 ^ 42 + 900 / 2 ^ 52) = Fin (3721 / 4)"
    by (simp add: power_int_minus)
  have half: "fl (61 / 2) = Fin (61 / 2)"
    by (rule fl_grid [of _ 61 "- 1" 5]) (simp_all add: power_int_minus)
  have 1: "mul64 (sub64 (Fin 0) (Fin (61 / 2 - 1 / 2 ^ 48))) (sub64 (Fin 0) (Fin (61 / 2 - 1 / 2 ^ 48)))
        = Fin (3721 / 4 - 1 / 2 ^ 42)"
    unfolding sub64_Fin dx using dx2 by simp
  have 2: "mul64 (sub64 (Fin 0) (Fin (30 / 2 ^ 26))) (sub64 (Fin 0) (Fin (30 / 2 ^ 26)))
        = Fin (900 / 2 ^ 52)"
    unfolding sub64_Fin bx_dy using bx_dy2 by simp
  have "distance64 \<lparr>vx = 0, vy = 0\<rparr> (61 / 2 - 1 / 2 ^ 48) (30 / 2 ^ 26) = Fin (61 / 2)"
    unfolding distance64_def Let_def vertex.simps 1 2 using sum half by (simp add: sqrt_3721_4)
  then show ?thesis by simp
qed

lemma weight_tie_example:
  "addEdge \<lparr>vertices = [\<lparr>vx = 0, vy = 0\<rparr>, \<lparr>vx = 61 / 2 - 1 / 2 ^ 48, vy = 30 / 2 ^ 26\<rparr>], edges = []\<rparr> 0 1 =
     (True, \<lparr>vertices = [\<lparr>vx = 0, vy = 0\<rparr>, \<lparr>vx = 61 / 2 - 1 / 2 ^ 48, vy = 30 / 2 ^ 26\<rparr>],
             edges = [\<lparr>v1 = 0, v2 = 1, weight = 31\<rparr>]\<rparr>) \<and>
   round (euclid \<lparr>vx = 0, vy = 0\<rparr> (61 / 2 - 1 / 2 ^ 48) (30 / 2 ^ 26)) = 30"
proof
  have "to_weight (Math_round (distance64 \<lparr>vx = 0, vy = 0\<rparr> (61 / 2 - 1 / 2 ^ 48) (30 / 2 ^ 26))) = 31"
    unfolding weight_tie_computed by (simp add: numeral_eq_enat)
  then show "addEdge \<lparr>vertices = [\<lparr>vx = 0, vy = 0\<rparr>, \<lparr>vx = 61 / 2 - 1 / 2 ^ 48, vy = 30 / 2 ^ 26\<rparr>], edges = []\<rparr> 0 1 =
     (True, \<lparr>vertices = [\<lparr>vx = 0, vy = 0\<rparr>, \<lparr>vx = 61 / 2 - 1 / 2 ^ 48, vy = 30 / 2 ^ 26\<rparr>],
             edges = [\<lparr>v1 = 0, v2 = 1, weight = 31\<rparr>]\<rparr>)"
    unfolding addEdge_eq by (simp add: in_range_def)
  show "round (euclid \<lparr>vx = 0, vy = 0\<rparr> (61 / 2 - 1 / 2 ^ 48) (30 / 2 ^ 26)) = 30"
    unfolding euclid_def by (rule round_sqrt_eq) (simp_all add: power2_eq_square)
qed

text \<open>
  The squares overflow from \<^verbatim>\<open>2^512\<close> on: between \<open>(0, 0)\<close> and \<^verbatim>\<open>(2^700, 0)\<close> the stored
  weight is \<^verbatim>\<open>Infinity\<close>.
\<close>

lemma weight_overflow_example:
  "addEdge \<lparr>vertices = [\<lparr>vx = 0, vy = 0\<rparr>, \<lparr>vx = 2 powi 700, vy = 0\<rparr>], edges = []\<rparr> 0 1 =
     (True, \<lparr>vertices = [\<lparr>vx = 0, vy = 0\<rparr>, \<lparr>vx = 2 powi 700, vy = 0\<rparr>],
             edges = [\<lparr>v1 = 0, v2 = 1, weight = \<infinity>\<rparr>]\<rparr>)"
proof -
  define x :: real where "x = 2 powi 700"
  have xx: "x * x = 2 powi 1400" unfolding x_def by (simp flip: power_int_add)
  have "fl (- x) = Fin (- x)"
    by (rule fl_grid [of _ "- 1" 700 700]) (simp_all add: x_def)
  then have dx: "sub64 (Fin 0) (Fin x) = Fin (- x)" by simp
  have "huge \<le> rnd (x * x)"
    by (rule rnd_ge_grid [of _ 1 1024]) (simp_all add: huge_def xx pow2_le_iff)
  then have sq: "fl (x * x) = PosInf" by (simp add: fl_def)
  have "distance64 \<lparr>vx = 0, vy = 0\<rparr> x 0 = PosInf"
    unfolding distance64_def Let_def vertex.simps dx by (simp add: sq)
  then have "to_weight (Math_round (distance64 \<lparr>vx = 0, vy = 0\<rparr> x 0)) = \<infinity>" by simp
  then show ?thesis unfolding addEdge_eq x_def [symmetric] by (simp add: in_range_def)
qed

lemma addEdge_edges_ok:
  assumes ok: "edges_ok (edges g)"
  shows "edges_ok (edges (snd (addEdge g a b)))"
proof (cases "fst (addEdge g a b)")
  case False
  then have "snd (addEdge g a b) = g" by (auto simp: addEdge_eq split: if_splits)
  then show ?thesis using ok by simp
next
  case True
  then have ab: "a \<noteq> b" and new: "\<forall>e\<in>set (edges g). {v1 e, v2 e} \<noteq> {a, b}"
    by (simp_all add: addEdge_eq split: if_splits)
  obtain w where E: "edges (snd (addEdge g a b)) = edges g @ [\<lparr>v1 = min a b, v2 = max a b, weight = w\<rparr>]"
    using True by (simp add: addEdge_eq split: if_splits)
  have mm: "{min a b, max a b} = {a, b}" "min a b \<noteq> max a b"
    using ab by (auto simp: min_def max_def)
  show ?thesis
    unfolding E edges_ok_def using ok new mm by (auto simp: edges_ok_def)
qed

lemma connect_all_edges_ok:
  "edges_ok (edges g) \<Longrightarrow> edges_ok (edges (connect_all g reqs))"
  unfolding connect_all_def
  by (induction reqs arbitrary: g) (auto simp: addEdge_edges_ok)

text \<open>
  Claim C8. Starting from an edge list without self-loops and duplicate pairs (the empty
  one, for a new graph), every sequence of edge-creation requests leaves such an edge
  list; and after a successful \<^verbatim>\<open>addEdge(a, b)\<close>, the request \<^verbatim>\<open>addEdge(b, a)\<close> is rejected
  and changes nothing.
\<close>

theorem edge_set_invariant:
  assumes "edges_ok (edges g)"
  shows "edges_ok (edges (connect_all g reqs)) \<and>
         (fst (addEdge g a b) \<longrightarrow>
            addEdge (snd (addEdge g a b)) b a = (False, snd (addEdge g a b)))"
proof
  show "edges_ok (edges (connect_all g reqs))" using assms by (rule connect_all_edges_ok)
  show "fst (addEdge g a b) \<longrightarrow> addEdge (snd (addEdge g a b)) b a = (False, snd (addEdge g a b))"
  proof
    assume "fst (addEdge g a b)"
    then have ab: "a \<noteq> b" and ir: "in_range (length (vertices g)) a" "in_range (length (vertices g)) b"
      by (simp_all add: addEdge_eq split: if_splits)
    obtain w where E: "edges (snd (addEdge g a b)) = edges g @ [\<lparr>v1 = min a b, v2 = max a b, weight = w\<rparr>]"
      and V: "vertices (snd (addEdge g a b)) = vertices g"
      using \<open>fst (addEdge g a b)\<close> by (simp add: addEdge_eq split: if_splits)
    have mm: "{min a b, max a b} = {b, a}" by (auto simp: min_def max_def)
    have "\<exists>e\<in>set (edges (snd (addEdge g a b))). {v1 e, v2 e} = {b, a}"
      unfolding E using mm by simp
    then show "addEdge (snd (addEdge g a b)) b a = (False, snd (addEdge g a b))"
      by (subst addEdge_eq) simp
  qed
qed

text \<open>
  From two unconnected buildings, the requests \<open>(0, 1)\<close>, \<open>(1, 0)\<close>, \<open>(1, 1)\<close> store one edge.
\<close>

lemma weight_100: "to_weight (Math_round (distance64 \<lparr>vx = 0, vy = 0\<rparr> 100 0)) = 100"
proof -
  have "round (euclid \<lparr>vx = 0, vy = 0\<rparr> 100 0) = 100" by (simp add: euclid_def)
  then show ?thesis
    using weight_int_euclid [of "\<lparr>vx = 0, vy = 0\<rparr>" 100 "- 100" 0 0]
    by (simp add: numeral_eq_enat)
qed

lemma addEdge_cx_graph:
  "addEdge \<lparr>vertices = vertices cx_graph, edges = []\<rparr> 0 1 = (True, cx_graph)"
  by (subst addEdge_eq) (simp add: cx_graph_def in_range_def weight_100)

theorem edge_set_invariant_witness:
  "connect_all \<lparr>vertices = vertices cx_graph, edges = []\<rparr> [(0, 1), (1, 0), (1, 1)] = cx_graph \<and>
   edges_ok (edges cx_graph) \<and>
   addEdge cx_graph 1 0 = (False, cx_graph)"
proof -
  have b: "addEdge cx_graph 1 0 = (False, cx_graph)" "addEdge cx_graph 1 1 = (False, cx_graph)"
    by (simp_all add: addEdge_def cx_graph_def)
  have c: "connect_all \<lparr>vertices = vertices cx_graph, edges = []\<rparr> [(0, 1), (1, 0), (1, 1)] = cx_graph"
    by (simp add: connect_all_def addEdge_cx_graph b)
  show ?thesis
    using edge_set_invariant [of "\<lparr>vertices = vertices cx_graph, edges = []\<rparr>"
        "[(0, 1), (1, 0), (1, 1)]" 0 1]
    by (simp add: c addEdge_cx_graph b edges_ok_def)
qed

section \<open>Union-Find: arguments out of range, and union called twice\<close>

lemma find_uf_Undefined:
  "parent u Undefined = Undefined \<Longrightarrow> find_uf u Undefined = Some (Undefined, u)"
  by (subst find_uf.simps) (simp add: strict_eq_def)

lemma find_uf_absent:
  assumes "parent u (Num x) = Undefined" "parent u Undefined = Undefined"
  shows "find_uf u (Num x) = Some (Undefined, u)"
proof -
  have "(parent u)(Num x := Undefined) = parent u" using assms(1) by (rule fun_upd_idem)
  then show ?thesis
    using assms by (subst find_uf.simps) (simp add: strict_eq_def find_uf_Undefined)
qed

lemma uf_inv_new: "uf_inv n (UnionFind_new n)"
  by (simp add: uf_inv_def par_def rk_def UnionFind_new_def in_range_def)

lemma outside_simps [simp]: "outside n Undefined" "outside n NaN" "outside n (Num i) = (\<not> in_range n i)"
  by (auto simp: outside_def)

lemma find_uf_outside:
  assumes inv: "uf_inv n u" and i: "in_range n i"
  shows "\<exists>r u'. find_uf u (Num i) = Some (r, u') \<and> (\<forall>k. outside n k \<longrightarrow> parent u' k = parent u k)"
  using inv i
proof (induction rule: uf_induct)
  case (root i)
  then show ?case using find_uf_root [OF inv root] by simp
next
  case (step i)
  then obtain r u1 where f: "find_uf u (Num (par u i)) = Some (r, u1)"
    and o: "\<And>k. outside n k \<Longrightarrow> parent u1 k = parent u k" by blast
  define u' where "u' = u1\<lparr>parent := (parent u1)(Num i := r)\<rparr>"
  have "find_uf u (Num i) = Some (r, u')"
    using find_uf_step [OF inv step(1,2)] f by (simp add: u'_def)
  moreover have "parent u' k = parent u k" if "outside n k" for k
  proof -
    have "k \<noteq> Num i" using that step(1) by (auto simp: outside_def)
    then show ?thesis using o [OF that] by (simp add: u'_def)
  qed
  ultimately show ?case by blast
qed

lemma find_uf_clean:
  assumes inv: "uf_inv n u" and cl: "uf_clean n u" and i: "in_range n i"
    and f: "find_uf u (Num i) = Some (r, u')"
  shows "uf_inv n u' \<and> uf_clean n u'"
proof -
  obtain r1 u1 where f1: "find_uf u (Num i) = Some (r1, u1)"
    and o: "\<And>k. outside n k \<Longrightarrow> parent u1 k = parent u k"
    using find_uf_outside [OF inv i] by blast
  obtain r2 u2 where f2: "find_uf u (Num i) = Some (Num r2, u2)" and rk: "rank u2 = rank u"
    and inv2: "uf_inv n u2"
    using find_uf_full [OF inv i] by metis
  have "u1 = u'" "u2 = u'" using f f1 f2 by simp_all
  then show ?thesis using o rk inv2 cl by (simp add: uf_clean_def)
qed

lemma union_uf_clean:
  assumes inv: "uf_inv n u" and cl: "uf_clean n u" and a: "in_range n a" and b: "in_range n b"
    and U: "union_uf u (Num a) (Num b) = Some (m, u')"
  shows "uf_inv n u' \<and> uf_clean n u'"
proof -
  obtain ra u1 where f1: "find_uf u (Num a) = Some (Num ra, u1)" and ra: "in_range n ra"
    using find_uf_full [OF inv a] by metis
  have ic1: "uf_inv n u1 \<and> uf_clean n u1" using find_uf_clean [OF inv cl a f1] .
  then have inv1: "uf_inv n u1" and cl1: "uf_clean n u1" by simp_all
  obtain rb u2 where f2: "find_uf u1 (Num b) = Some (Num rb, u2)" and rb: "in_range n rb"
    using find_uf_full [OF inv1 b] by metis
  have ic2: "uf_inv n u2 \<and> uf_clean n u2" using find_uf_clean [OF inv1 cl1 b f2] .
  then have cl2: "uf_clean n u2" by simp
  have inv': "uf_inv n u'"
    using union_uf_effect [OF inv a b] U by auto
  have keys: "k \<noteq> Num ra" "k \<noteq> Num rb" if "outside n k" for k
    using that ra rb by (auto simp: outside_def)
  have "parent u' k = Undefined \<and> rank u' k = Undefined" if k: "outside n k" for k
  proof -
    have c: "parent u2 k = Undefined" "rank u2 k = Undefined"
      using cl2 k by (simp_all add: uf_clean_def)
    show ?thesis
      using U keys [OF k] c
      by (auto simp: union_uf_def f1 f2 split: if_splits)
  qed
  then show ?thesis using inv' by (simp add: uf_clean_def)
qed

lemma uf_clean_new: "uf_clean n (UnionFind_new n)"
  by (auto simp: uf_clean_def UnionFind_new_def outside_def in_range_def split: jsval.splits)

lemma uf_reachable_inv:
  "uf_reachable n u \<Longrightarrow> uf_inv n u \<and> uf_clean n u"
proof (induction rule: uf_reachable.induct)
  case constructed
  then show ?case using uf_inv_new uf_clean_new by simp
next
  case (after_find u i r u')
  then show ?case using find_uf_clean by blast
next
  case (after_union u a b m u')
  then show ?case using union_uf_clean by blast
qed

lemma out_of_range_calls:
  assumes inv: "uf_inv n u" and cl: "uf_clean n u"
    and x: "\<not> in_range n x" and y: "in_range n y" and z: "\<not> in_range n z"
  shows "find_uf u (Num x) = Some (Undefined, u) \<and>
         map_option fst (union_uf u (Num x) (Num y)) = Some True \<and>
         map_option fst (union_uf u (Num y) (Num x)) = Some True \<and>
         map_option fst (union_uf u (Num x) (Num z)) = Some False"
proof -
  have absent: "find_uf v (Num w) = Some (Undefined, v)" if "uf_clean n v" "\<not> in_range n w" for v w
    using that by (intro find_uf_absent) (simp_all add: uf_clean_def)
  have ru: "rank v Undefined = Undefined" if "uf_clean n v" for v
    using that by (simp add: uf_clean_def)
  note fx = absent [OF cl x] and fz = absent [OF cl z]
  obtain ry u1 where fy: "find_uf u (Num y) = Some (Num ry, u1)"
    using find_uf_full [OF inv y] by metis
  have cl1: "uf_clean n u1" using find_uf_clean [OF inv cl y fy] by simp
  note fx1 = absent [OF cl1 x]
  have 1: "map_option fst (union_uf u (Num x) (Num y)) = Some True"
    by (simp add: union_uf_def fx fy strict_eq_def ru [OF cl1])
  have 2: "map_option fst (union_uf u (Num y) (Num x)) = Some True"
    by (simp add: union_uf_def fx1 fy strict_eq_def ru [OF cl1])
  have 3: "map_option fst (union_uf u (Num x) (Num z)) = Some False"
    by (simp add: union_uf_def fx fz strict_eq_def)
  show ?thesis using fx 1 2 3 by simp
qed

text \<open>
  Claim C6, as the code has it. The class checks no index. In every state reached from the
  constructor by calls on elements in range, with \<open>x\<close> and \<open>z\<close> outside \<open>[0, n)\<close> and \<open>y\<close>
  inside: \<^verbatim>\<open>find(x)\<close> raises nothing and returns \<^verbatim>\<open>undefined\<close>, every stored value staying
  as it was; \<^verbatim>\<open>union\<close> returns \<^verbatim>\<open>true\<close> when one argument is out of range and
  \<^verbatim>\<open>false\<close> when both are. Nothing is clamped.
\<close>

theorem out_of_range_no_error:
  assumes "uf_reachable n u" and "\<not> in_range n x" and "in_range n y" and "\<not> in_range n z"
  shows "find_uf u (Num x) = Some (Undefined, u) \<and>
         map_option fst (union_uf u (Num x) (Num y)) = Some True \<and>
         map_option fst (union_uf u (Num y) (Num x)) = Some True \<and>
         map_option fst (union_uf u (Num x) (Num z)) = Some False"
  using uf_reachable_inv [OF assms(1)] assms(2-4) by (intro out_of_range_calls) simp_all

text \<open>
  Claim C6 as stated fails: over three elements \<^verbatim>\<open>find(7)\<close> returns \<^verbatim>\<open>undefined\<close> as a
  normal result, and \<^verbatim>\<open>union(7, 0)\<close> returns \<^verbatim>\<open>true\<close> after storing \<^verbatim>\<open>undefined\<close> as
  the parent of element 0.
\<close>

theorem out_of_range_counterexample:
  "map_option fst (find_uf (UnionFind_new 3) (Num 7)) = Some Undefined \<and>
   map_option (\<lambda>(merged, u). (merged, parent u (Num 0))) (union_uf (UnionFind_new 3) (Num 7) (Num 0))
     = Some (True, Undefined)"
  by code_simp

text \<open>
  Over four elements, with 5 and 9 out of range and 2 in range.
\<close>

theorem out_of_range_no_error_witness:
  "uf_reachable 4 (UnionFind_new 4) \<and>
   find_uf (UnionFind_new 4) (Num 5) = Some (Undefined, UnionFind_new 4) \<and>
   map_option fst (union_uf (UnionFind_new 4) (Num 5) (Num 2)) = Some True \<and>
   map_option fst (union_uf (UnionFind_new 4) (Num 2) (Num 5)) = Some True \<and>
   map_option fst (union_uf (UnionFind_new 4) (Num 5) (Num 9)) = Some False"
  using out_of_range_no_error [OF uf_reachable.constructed, of 4 5 2 9]
  by (simp add: in_range_def uf_reachable.constructed)

lemma union_uf_twice:
  assumes inv: "uf_inv n u" and a: "in_range n a" and b: "in_range n b"
  shows "\<exists>res u1. union_uf u (Num a) (Num b) = Some (res, u1) \<and> uf_inv n u1 \<and>
           (res \<longrightarrow> rootv u1 (Num a) = rootv u1 (Num b) \<and>
              (\<exists>u2. union_uf u1 (Num a) (Num b) = Some (False, u2) \<and> uf_inv n u2 \<and>
                 rank u2 = rank u1 \<and> roots n u2 = roots n u1 \<and>
                 (\<forall>j. in_range n j \<longrightarrow> rootv u2 (Num j) = rootv u1 (Num j))))"
proof -
  obtain res u1 where U: "union_uf u (Num a) (Num b) = Some (res, u1)" and inv1: "uf_inv n u1"
    and res: "res = (rootv u (Num a) \<noteq> rootv u (Num b))"
    and mg: "res \<Longrightarrow> \<exists>c t. {Some (Num c), Some (Num t)} = {rootv u (Num a), rootv u (Num b)} \<and>
              (\<forall>j. in_range n j \<longrightarrow> rootv u1 (Num j) =
                  (if rootv u (Num j) = Some (Num c) then Some (Num t) else rootv u (Num j)))"
    using union_uf_effect [OF inv a b] by blast
  have "rootv u1 (Num a) = rootv u1 (Num b) \<and>
        (\<exists>u2. union_uf u1 (Num a) (Num b) = Some (False, u2) \<and> uf_inv n u2 \<and>
           rank u2 = rank u1 \<and> roots n u2 = roots n u1 \<and>
           (\<forall>j. in_range n j \<longrightarrow> rootv u2 (Num j) = rootv u1 (Num j)))" if r: res
  proof -
    obtain c t where ct: "{Some (Num c), Some (Num t)} = {rootv u (Num a), rootv u (Num b)}"
      and rv: "\<And>j. in_range n j \<Longrightarrow> rootv u1 (Num j) =
                  (if rootv u (Num j) = Some (Num c) then Some (Num t) else rootv u (Num j))"
      using mg [OF r] by blast
    have "rootv u (Num a) = Some (Num c) \<or> rootv u (Num a) = Some (Num t)"
      "rootv u (Num b) = Some (Num c) \<or> rootv u (Num b) = Some (Num t)"
      using ct by (auto simp: doubleton_eq_iff)
    then have same: "rootv u1 (Num a) = rootv u1 (Num b)"
      using rv [OF a] rv [OF b] by auto
    obtain res2 u2 where U2: "union_uf u1 (Num a) (Num b) = Some (res2, u2)" and inv2: "uf_inv n u2"
      and res2: "res2 = (rootv u1 (Num a) \<noteq> rootv u1 (Num b))"
      and nm: "\<not> res2 \<Longrightarrow> rank u2 = rank u1 \<and> roots n u2 = roots n u1 \<and>
              (\<forall>j. in_range n j \<longrightarrow> rootv u2 (Num j) = rootv u1 (Num j))"
      using union_uf_effect [OF inv1 a b] by blast
    have "\<not> res2" using res2 same by simp
    then have "union_uf u1 (Num a) (Num b) = Some (False, u2)" using U2 by simp
    then show ?thesis using same inv2 nm [OF \<open>\<not> res2\<close>] by blast
  qed
  then show ?thesis using U inv1 by blast
qed

text \<open>
  Claim C7, as the code has it. In every state reached from the constructor by calls on
  elements in range, and for elements \<open>a\<close>, \<open>b\<close> in range, \<^verbatim>\<open>union(a, b)\<close> returns; when it
  returns \<^verbatim>\<open>true\<close>, \<^verbatim>\<open>find(a)\<close> and \<^verbatim>\<open>find(b)\<close> return the same root afterwards, and a
  second \<^verbatim>\<open>union(a, b)\<close> returns \<^verbatim>\<open>false\<close> and leaves the rank array, the set of roots
  and the root of every element unchanged. (The \<^verbatim>\<open>parent\<close> array itself may change: the
  two \<^verbatim>\<open>find\<close> calls compress paths.)
\<close>

theorem union_then_again:
  assumes "uf_reachable n u" "in_range n a" "in_range n b"
  shows "\<exists>res u1. union_uf u (Num a) (Num b) = Some (res, u1) \<and> uf_reachable n u1 \<and>
           (res \<longrightarrow> rootv u1 (Num a) = rootv u1 (Num b) \<and>
              (\<exists>u2. union_uf u1 (Num a) (Num b) = Some (False, u2) \<and> uf_reachable n u2 \<and>
                 rank u2 = rank u1 \<and> roots n u2 = roots n u1 \<and>
                 (\<forall>j. in_range n j \<longrightarrow> rootv u2 (Num j) = rootv u1 (Num j))))"
proof -
  have inv: "uf_inv n u" using uf_reachable_inv [OF assms(1)] by simp
  obtain res u1 where U: "union_uf u (Num a) (Num b) = Some (res, u1)"
    and R: "res \<longrightarrow> rootv u1 (Num a) = rootv u1 (Num b) \<and>
              (\<exists>u2. union_uf u1 (Num a) (Num b) = Some (False, u2) \<and> uf_inv n u2 \<and>
                 rank u2 = rank u1 \<and> roots n u2 = roots n u1 \<and>
                 (\<forall>j. in_range n j \<longrightarrow> rootv u2 (Num j) = rootv u1 (Num j)))"
    using union_uf_twice [OF inv assms(2,3)] by blast
  have r1: "uf_reachable n u1" using uf_reachable.after_union [OF assms U] .
  have "uf_reachable n u2" if "union_uf u1 (Num a) (Num b) = Some (False, u2)" for u2
    using uf_reachable.after_union [OF r1 assms(2,3) that] .
  then show ?thesis using U r1 R by blast
qed

text \<open>
  On a new Union-Find over four elements, \<^verbatim>\<open>union(1, 3)\<close> merges and a second call does not.
\<close>

theorem union_then_again_witness:
  "\<exists>u1. union_uf (UnionFind_new 4) (Num 1) (Num 3) = Some (True, u1) \<and>
      rootv u1 (Num 1) = rootv u1 (Num 3) \<and>
      (\<exists>u2. union_uf u1 (Num 1) (Num 3) = Some (False, u2) \<and> rank u2 = rank u1)"
proof -
  have m: "map_option fst (union_uf (UnionFind_new 4) (Num 1) (Num 3)) = Some True"
    by code_simp
  show ?thesis
    using union_then_again [OF uf_reachable.constructed, of 4 1 3] m
    by (auto simp: in_range_def)
qed

text \<open>
  Claim C7 as stated fails on the \<^verbatim>\<open>parent\<close> array: after \<^verbatim>\<open>union(0, 1)\<close>, \<^verbatim>\<open>union(2, 3)\<close>
  and a merging \<^verbatim>\<open>union(1, 3)\<close>, the second \<^verbatim>\<open>union(1, 3)\<close> returns \<^verbatim>\<open>false\<close> but
  re-parents element 3 from 2 to the root 0.
\<close>

theorem union_again_counterexample:
  "cx_unions = Some (True, False, Num 2, Num 0)"
  by code_simp

section \<open>The concrete scenario\<close>

lemma round_sqrt_200: "round (sqrt 200) = 14"
  by (rule round_sqrt_eq) simp_all

lemma weight_AB: "to_weight (Math_round (distance64 \<lparr>vx = 0, vy = 0\<rparr> 10 0)) = 10"
proof -
  have "round (euclid \<lparr>vx = 0, vy = 0\<rparr> 10 0) = 10" by (simp add: euclid_def)
  then show ?thesis
    using weight_int_euclid [of "\<lparr>vx = 0, vy = 0\<rparr>" 10 "- 10" 0 0]
    by (simp add: numeral_eq_enat)
qed

lemma weight_BC: "to_weight (Math_round (distance64 \<lparr>vx = 10, vy = 0\<rparr> 10 10)) = 10"
proof -
  have "round (euclid \<lparr>vx = 10, vy = 0\<rparr> 10 10) = 10" by (simp add: euclid_def)
  then show ?thesis
    using weight_int_euclid [of "\<lparr>vx = 10, vy = 0\<rparr>" 10 0 10 "- 10"]
    by (simp add: numeral_eq_enat)
qed

lemma weight_AC: "to_weight (Math_round (distance64 \<lparr>vx = 0, vy = 0\<rparr> 10 10)) = 14"
proof -
  have "round (euclid \<lparr>vx = 0, vy = 0\<rparr> 10 10) = 14" by (simp add: euclid_def round_sqrt_200)
  then show ?thesis
    using weight_int_euclid [of "\<lparr>vx = 0, vy = 0\<rparr>" 10 "- 10" 10 "- 10"]
    by (simp add: numeral_eq_enat)
qed

lemma scenario_edges:
  "scenario_graph =
     \<lparr>vertices = [\<lparr>vx = 0, vy = 0\<rparr>, \<lparr>vx = 10, vy = 0\<rparr>, \<lparr>vx = 10, vy = 10\<rparr>],
      edges = [\<lparr>v1 = 0, v2 = 1, weight = 10\<rparr>, \<lparr>v1 = 1, v2 = 2, weight = 10\<rparr>,
               \<lparr>v1 = 0, v2 = 2, weight = 14\<rparr>]\<rparr>"
  by (simp add: scenario_graph_def connect_all_def addEdge_eq in_range_def doubleton_eq_iff
      weight_AB weight_BC weight_AC)

lemma scenario_loop:
  "mst_loop 3 [\<lparr>v1 = 0, v2 = 1, weight = 10\<rparr>, \<lparr>v1 = 1, v2 = 2, weight = 10\<rparr>,
               \<lparr>v1 = 0, v2 = 2, weight = 14\<rparr>] (UnionFind_new 3) [] =
   Some [\<lparr>v1 = 0, v2 = 1, weight = 10\<rparr>, \<lparr>v1 = 1, v2 = 2, weight = 10\<rparr>]"
  by code_simp

lemma findMST_scenario:
  "findMST scenario_graph = Some [\<lparr>v1 = 0, v2 = 1, weight = 10\<rparr>, \<lparr>v1 = 1, v2 = 2, weight = 10\<rparr>]"
proof -
  have len: "length (vertices scenario_graph) = 3" by (simp add: scenario_edges)
  have srt: "sort_key weight (edges scenario_graph) =
      [\<lparr>v1 = 0, v2 = 1, weight = 10\<rparr>, \<lparr>v1 = 1, v2 = 2, weight = 10\<rparr>, \<lparr>v1 = 0, v2 = 2, weight = 14\<rparr>]"
    by (simp add: scenario_edges)
  have "findMST scenario_graph =
      mst_loop 3 (sort_key weight (edges scenario_graph)) (UnionFind_new 3) []"
    unfolding findMST_def len by simp
  then show ?thesis unfolding srt scenario_loop .
qed

text \<open>
  Claim C1. In the scenario the stored edges are A-B (10), B-C (10), A-C (14);
  \<^verbatim>\<open>findMST\<close> returns exactly A-B and B-C, in this order, and their weights sum to 20.
\<close>

theorem scenario_mst:
  "map (\<lambda>e. (v1 e, v2 e, weight e)) (edges scenario_graph) = [(0, 1, 10), (1, 2, 10), (0, 2, 14)] \<and>
   findMST scenario_graph = Some [\<lparr>v1 = 0, v2 = 1, weight = 10\<rparr>, \<lparr>v1 = 1, v2 = 2, weight = 10\<rparr>] \<and>
   map_option (foldl (\<lambda>sum e. sum + weight e) 0) (findMST scenario_graph) = Some 20"
  unfolding findMST_scenario by (simp add: scenario_edges)

section \<open>The cached MST result of the application\<close>

lemma cx_loop:
  "mst_loop 2 [\<lparr>v1 = 0, v2 = 1, weight = 100\<rparr>] (UnionFind_new 2) [] =
     Some [\<lparr>v1 = 0, v2 = 1, weight = 100\<rparr>]"
  by code_simp

lemma findMST_cx_graph: "findMST cx_graph = Some [\<lparr>v1 = 0, v2 = 1, weight = 100\<rparr>]"
proof -
  have len: "length (vertices cx_graph) = 2" by (simp add: cx_graph_def)
  have srt: "sort_key weight (edges cx_graph) = [\<lparr>v1 = 0, v2 = 1, weight = 100\<rparr>]"
    by (simp add: cx_graph_def)
  have "findMST cx_graph = mst_loop 2 (sort_key weight (edges cx_graph)) (UnionFind_new 2) []"
    unfolding findMST_def len by simp
  then show ?thesis unfolding srt cx_loop .
qed

lemma run_cx_events: "run PipelineApp_new cx_events = Some cx_cached"
proof -
  define g2 where "g2 = \<lparr>vertices = vertices cx_graph, edges = []\<rparr>"
  define s1 where "s1 = PipelineApp_new\<lparr>graph := \<lparr>vertices = [\<lparr>vx = 0, vy = 0\<rparr>], edges = []\<rparr>\<rparr>"
  define s2 where "s2 = PipelineApp_new\<lparr>graph := g2\<rparr>"
  define s3 where "s3 = PipelineApp_new\<lparr>graph := g2, mode := AddConnection\<rparr>"
  define s4 where "s4 = PipelineApp_new\<lparr>graph := g2, mode := AddConnection, selectedVertex := Some 0\<rparr>"
  define s5 where "s5 = PipelineApp_new\<lparr>graph := cx_graph, mode := AddConnection\<rparr>"
  define s6 where "s6 = cx_cached\<lparr>mode := AddConnection\<rparr>"
  have 1: "step PipelineApp_new (CanvasClick 0 0) = Some s1"
    by (simp add: s1_def handleCanvasClick_def PipelineApp_new_def Graph_new_def addVertex_def)
  have av: "addVertex \<lparr>vertices = [\<lparr>vx = 0, vy = 0\<rparr>], edges = []\<rparr> 100 0 = (1, g2)"
    by (subst addVertex_far) (simp_all add: euclid_def g2_def cx_graph_def)
  have 2: "step s1 (CanvasClick 100 0) = Some s2"
    by (simp add: s1_def s2_def handleCanvasClick_def PipelineApp_new_def av)
  have 3: "step s2 ClickAddConnection = Some s3"
    by (simp add: s2_def s3_def g2_def PipelineApp_new_def cx_graph_def)
  have c0: "findClosestVertex g2 0 16 = Some 0" and c1: "findClosestVertex g2 100 16 = Some 1"
    by (simp_all add: g2_def findClosestVertex_def cx_graph_def upt_rec)
  have 4: "step s3 (CanvasClick 0 16) = Some s4"
    by (simp add: s3_def s4_def handleCanvasClick_def c0 PipelineApp_new_def)
  have e: "addEdge g2 0 1 = (True, cx_graph)"
    unfolding g2_def by (rule addEdge_cx_graph)
  have g2e: "edges g2 = []" by (simp add: g2_def)
  have 5: "step s4 (CanvasClick 100 16) = Some s5"
    by (simp add: s4_def s5_def handleCanvasClick_def c1 e g2e PipelineApp_new_def)
  have 6: "step s5 ClickFindMST = Some s6"
    by (simp add: s5_def s6_def findMST_cx_graph PipelineApp_new_def cx_cached_def)
      (simp add: cx_graph_def numeral_eq_enat)
  have 7: "step s6 ClickAddBuilding = Some cx_cached"
    by (simp add: s6_def cx_cached_def)
  show ?thesis
    by (simp add: cx_events_def 1 2 3 4 5 6 7 del: step.simps)
qed

text \<open>
  Claim C4 as stated fails on vertex insertion: with an MST cached, a click that places a
  third building leaves \<^verbatim>\<open>mstEdges\<close> as it was.
\<close>

theorem cache_kept_counterexample:
  "run PipelineApp_new cx_events = Some cx_cached \<and>
   mstEdges cx_cached = [\<lparr>v1 = 0, v2 = 1, weight = 100\<rparr>] \<and>
   map_option (\<lambda>s. (vertices (graph s), mstEdges s)) (step cx_cached (CanvasClick 200 0)) =
     Some (vertices cx_graph @ [\<lparr>vx = 200, vy = 0\<rparr>], [\<lparr>v1 = 0, v2 = 1, weight = 100\<rparr>])"
proof -
  have "addVertex cx_graph 200 0 =
      (int (length (vertices cx_graph)), cx_graph\<lparr>vertices := vertices cx_graph @ [\<lparr>vx = 200, vy = 0\<rparr>]\<rparr>)"
    by (rule addVertex_far) (simp add: euclid_def cx_graph_def)
  then show ?thesis
    by (simp add: run_cx_events) (simp add: cx_cached_def handleCanvasClick_def)
qed

lemma step_cache:
  assumes "step s ev = Some s'"
  shows "(ev = ClickReset \<longrightarrow> mstEdges s' = []) \<and>
         (edges (graph s') \<noteq> edges (graph s) \<longrightarrow> mstEdges s' = []) \<and>
         ((\<exists>px py. ev = CanvasClick px py) \<and> mode s = AddBuilding \<longrightarrow> mstEdges s' = mstEdges s)"
proof (cases ev)
  case (CanvasClick px py)
  then have s': "s' = handleCanvasClick s px py" using assms by simp
  show ?thesis
    unfolding s' using CanvasClick
    by (cases "mode s")
      (auto simp: handleCanvasClick_def addEdge_def addVertex_def Let_def
        split: prod.splits option.splits if_splits)
next
  case ClickFindMST
  then show ?thesis using assms by (auto split: if_splits Option.bind_splits)
qed (use assms in \<open>auto split: if_splits\<close>)

text \<open>
  Claim C4, as the code has it. For every event handled from every state: a reset empties
  the cached MST result; so does every event that changes the edge list, that is, every
  successful edge creation; and a click in building mode, hence every vertex insertion,
  leaves the cached result unchanged.
\<close>

theorem cache_invalidation:
  assumes "step s ev = Some s'"
  shows "(ev = ClickReset \<longrightarrow> mstEdges s' = []) \<and>
         (edges (graph s') \<noteq> edges (graph s) \<longrightarrow> mstEdges s' = []) \<and>
         ((\<exists>px py. ev = CanvasClick px py) \<and> mode s = AddBuilding \<longrightarrow> mstEdges s' = mstEdges s)"
  using assms by (rule step_cache)

text \<open>
  With building 0 selected and a stale cache, the click on building 1 creates the edge and
  empties the cache.
\<close>

theorem cache_invalidation_witness:
  "step cx_selected (CanvasClick 100 16) =
     Some (cx_selected\<lparr>graph := cx_graph, mstEdges := [], selectedVertex := None\<rparr>) \<and>
   edges (graph (cx_selected\<lparr>graph := cx_graph, mstEdges := [], selectedVertex := None\<rparr>))
     \<noteq> edges (graph cx_selected) \<and>
   mstEdges (cx_selected\<lparr>graph := cx_graph, mstEdges := [], selectedVertex := None\<rparr>) = []"
proof -
  have c1: "findClosestVertex \<lparr>vertices = vertices cx_graph, edges = []\<rparr> 100 16 = Some 1"
    by (simp add: findClosestVertex_def cx_graph_def upt_rec)
  have e: "addEdge \<lparr>vertices = vertices cx_graph, edges = []\<rparr> 0 1 = (True, cx_graph)"
    by (rule addEdge_cx_graph)
  have st: "step cx_selected (CanvasClick 100 16) =
     Some (cx_selected\<lparr>graph := cx_graph, mstEdges := [], selectedVertex := None\<rparr>)"
    by (simp add: handleCanvasClick_def cx_selected_def c1 e)
  show ?thesis
    using cache_invalidation [OF st] st by (simp add: cx_selected_def cx_graph_def)
qed

section \<open>Kruskal: the order of the result\<close>

lemma mst_loop_subseq:
  "mst_loop n es u acc = Some r \<Longrightarrow> \<exists>picked. r = acc @ picked \<and> subseq picked es"
proof (induction es arbitrary: u acc)
  case Nil
  then show ?case by simp
next
  case (Cons e es)
  from Cons.prems obtain r1 u1 r2 u2 where
    f1: "find_uf u (Num (v1 e)) = Some (r1, u1)" and f2: "find_uf u1 (Num (v2 e)) = Some (r2, u2)"
    by (auto split: Option.bind_splits)
  show ?case
  proof (cases "strict_eq r1 r2")
    case True
    then have "mst_loop n es u2 acc = Some r" using Cons.prems f1 f2 by simp
    then obtain picked where "r = acc @ picked" "subseq picked es" using Cons.IH by blast
    then show ?thesis by (auto intro: exI [of _ picked])
  next
    case False
    then obtain m u3 where f3: "union_uf u2 (Num (v1 e)) (Num (v2 e)) = Some (m, u3)"
      using Cons.prems f1 f2 by (auto split: Option.bind_splits)
    show ?thesis
    proof (cases "int (length (acc @ [e])) = int n - 1")
      case True
      then have "r = acc @ [e]" using Cons.prems f1 f2 f3 False by (simp add: Let_def)
      then show ?thesis by (intro exI [of _ "[e]"]) simp
    next
      case stop: False
      then have "mst_loop n es u3 (acc @ [e]) = Some r"
        using Cons.prems f1 f2 f3 False by (simp add: Let_def)
      then obtain picked where "r = (acc @ [e]) @ picked" "subseq picked es"
        using Cons.IH by blast
      then show ?thesis by (intro exI [of _ "e # picked"]) simp
    qed
  qed
qed

lemma mst_loop_total:
  assumes "uf_inv n u" "edges_in_range n es"
  shows "\<exists>r. mst_loop n es u acc = Some r"
  using assms
proof (induction es arbitrary: u acc)
  case Nil
  then show ?case by simp
next
  case (Cons e es)
  then have a: "in_range n (v1 e)" and b: "in_range n (v2 e)" and rest: "edges_in_range n es"
    by (simp_all add: edges_in_range_def)
  obtain r1 u1 where f1: "find_uf u (Num (v1 e)) = Some (Num r1, u1)" and inv1: "uf_inv n u1"
    using find_uf_full [OF Cons.prems(1) a] by metis
  obtain r2 u2 where f2: "find_uf u1 (Num (v2 e)) = Some (Num r2, u2)" and inv2: "uf_inv n u2"
    using find_uf_full [OF inv1 b] by metis
  obtain m u3 where f3: "union_uf u2 (Num (v1 e)) (Num (v2 e)) = Some (m, u3)" and inv3: "uf_inv n u3"
    using union_uf_effect [OF inv2 a b] by blast
  obtain ra where ra: "mst_loop n es u2 acc = Some ra" using Cons.IH [OF inv2 rest] by blast
  obtain rb where rb: "mst_loop n es u3 (acc @ [e]) = Some rb" using Cons.IH [OF inv3 rest] by blast
  show ?case by (simp add: f1 f2 f3 ra rb Let_def)
qed

lemma subseq_sorted_wrt:
  "subseq xs ys \<Longrightarrow> sorted_wrt P ys \<Longrightarrow> sorted_wrt P xs"
proof (induction rule: list_emb.induct)
  case (list_emb_Cons xs ys y)
  then show ?case by simp
next
  case (list_emb_Cons2 x y xs ys)
  then have "set xs \<subseteq> set ys" by (auto dest: list_emb_set)
  then show ?case using list_emb_Cons2 by auto
qed simp

lemma findMST_order:
  assumes "findMST g = Some r"
  shows "sorted (map weight r) \<and>
         (\<forall>w. subseq (filter (\<lambda>e. weight e = w) r) (filter (\<lambda>e. weight e = w) (edges g)))"
proof (cases "length (vertices g) < 2")
  case True
  then show ?thesis using assms by (simp add: findMST_def)
next
  case False
  then have "mst_loop (length (vertices g)) (sort_key weight (edges g))
               (UnionFind_new (length (vertices g))) [] = Some r"
    using assms by (simp add: findMST_def)
  then have sub: "subseq r (sort_key weight (edges g))"
    using mst_loop_subseq by fastforce
  have "sorted_wrt (\<lambda>x y. weight x \<le> weight y) (sort_key weight (edges g))"
    using sorted_sort_key [of weight "edges g"] by (simp add: sorted_map)
  then have "sorted (map weight r)"
    using subseq_sorted_wrt [OF sub] by (simp add: sorted_map)
  moreover have "subseq (filter (\<lambda>e. weight e = w) r) (filter (\<lambda>e. weight e = w) (edges g))" for w
    using subseq_filter [OF sub, of "\<lambda>e. weight e = w"] by (simp add: sort_key_stable)
  ultimately show ?thesis by blast
qed

lemma findMST_total:
  assumes "edges_in_range (length (vertices g)) (edges g)"
  shows "\<exists>r. findMST g = Some r"
proof -
  have "edges_in_range (length (vertices g)) (sort_key weight (edges g))"
    using assms by (simp add: edges_in_range_def)
  then show ?thesis
    using mst_loop_total [OF uf_inv_new] by (simp add: findMST_def)
qed

text \<open>
  Claim C2. \<^verbatim>\<open>findMST\<close> returns on every graph whose edges join existing vertices, and
  whatever it returns is in ascending order of weight, with the edges of any one weight
  in the same relative order as in the edge list: for every weight \<open>w\<close>, the edges of weight
  \<open>w\<close> in the result are a subsequence of the edges of weight \<open>w\<close> in insertion order.
\<close>

theorem findMST_stable:
  "(edges_in_range (length (vertices g)) (edges g) \<longrightarrow> (\<exists>r. findMST g = Some r)) \<and>
   (\<forall>r. findMST g = Some r \<longrightarrow>
      sorted (map weight r) \<and>
      (\<forall>w. subseq (filter (\<lambda>e. weight e = w) r) (filter (\<lambda>e. weight e = w) (edges g))))"
  using findMST_total findMST_order by blast

text \<open>
  In the scenario of claim C1 the two edges of weight 10 come out in their insertion order.
\<close>

theorem findMST_stable_witness:
  "edges_in_range (length (vertices scenario_graph)) (edges scenario_graph) \<and>
   findMST scenario_graph = Some [\<lparr>v1 = 0, v2 = 1, weight = 10\<rparr>, \<lparr>v1 = 1, v2 = 2, weight = 10\<rparr>] \<and>
   sorted (map weight [\<lparr>v1 = 0, v2 = 1, weight = 10\<rparr>, \<lparr>v1 = 1, v2 = 2, weight = 10\<rparr>]) \<and>
   subseq [\<lparr>v1 = 0, v2 = 1, weight = 10\<rparr>, \<lparr>v1 = 1, v2 = 2, weight = 10\<rparr>]
     (filter (\<lambda>e. weight e = 10) (edges scenario_graph))"
proof -
  have r1: "edges_in_range (length (vertices scenario_graph)) (edges scenario_graph)"
    by (simp add: scenario_edges edges_in_range_def in_range_def)
  have "subseq (filter (\<lambda>e. weight e = 10) [\<lparr>v1 = 0, v2 = 1, weight = 10\<rparr>, \<lparr>v1 = 1, v2 = 2, weight = 10\<rparr>])
     (filter (\<lambda>e. weight e = 10) (edges scenario_graph))"
    using findMST_stable [of scenario_graph] findMST_scenario by blast
  then show ?thesis using r1 findMST_scenario by simp
qed

section \<open>Kruskal: size of the result and connectivity\<close>

lemma finite_roots: "finite (roots n u)"
  by (rule finite_subset [of _ "{0..<int n}"]) (auto simp: roots_def)

lemma rootv_in_roots:
  assumes "uf_inv n u" "in_range n i"
  obtains r where "rootv u (Num i) = Some (Num r)" "r \<in> roots n u"
  using rootv_ex [OF assms] by (auto simp: roots_def in_range_def)

lemma rootv_of_root:
  assumes "uf_inv n u" "r \<in> roots n u"
  shows "rootv u (Num r) = Some (Num r)"
  using assms by (intro rootv_root [of n]) (auto simp: roots_def in_range_def)

lemma one_root_iff:
  assumes inv: "uf_inv n u" and n: "0 < n"
  shows "card (roots n u) = 1 \<longleftrightarrow>
         (\<forall>i j. in_range n i \<and> in_range n j \<longrightarrow> rootv u (Num i) = rootv u (Num j))"
proof
  assume "card (roots n u) = 1"
  then obtain r where r: "roots n u = {r}" by (auto simp: card_1_singleton_iff)
  have "rootv u (Num i) = Some (Num r)" if "in_range n i" for i
    using rootv_in_roots [OF inv that] r by (metis singletonD)
  then show "\<forall>i j. in_range n i \<and> in_range n j \<longrightarrow> rootv u (Num i) = rootv u (Num j)"
    by simp
next
  assume all: "\<forall>i j. in_range n i \<and> in_range n j \<longrightarrow> rootv u (Num i) = rootv u (Num j)"
  have z: "in_range n 0" using n by (simp add: in_range_def)
  obtain r0 where r0: "rootv u (Num 0) = Some (Num r0)" "r0 \<in> roots n u"
    using rootv_in_roots [OF inv z] by blast
  have "r = r0" if "r \<in> roots n u" for r
  proof -
    have "in_range n r" using that by (simp add: roots_def in_range_def)
    then have e: "rootv u (Num r) = rootv u (Num 0)" using all z by blast
    have "Some (Num r) = rootv u (Num r)" using rootv_of_root [OF inv that] by (rule sym)
    also have "\<dots> = rootv u (Num 0)" by (rule e)
    also have "\<dots> = Some (Num r0)" by (rule r0(1))
    finally show ?thesis by simp
  qed
  then have "roots n u = {r0}" using r0(2) by blast
  then show "card (roots n u) = 1" by simp
qed

lemma uf_rel_rtrancl:
  assumes "in_range n i" "in_range n j"
  shows "(i, j) \<in> (uf_rel n u)\<^sup>* \<longleftrightarrow> rootv u (Num i) = rootv u (Num j)"
proof -
  have "trans (uf_rel n u)" by (auto simp: trans_def uf_rel_def)
  then have "(uf_rel n u)\<^sup>* = (uf_rel n u)\<^sup>=" by (simp add: rtrancl_trancl_reflcl del: reflcl_trancl)
  then show ?thesis using assms by (auto simp: uf_rel_def)
qed

lemma edge_rel_Cons: "edge_rel (e # es) = {(v1 e, v2 e), (v2 e, v1 e)} \<union> edge_rel es"
  by (simp add: edge_rel_def)

lemma uf_rel_cong:
  assumes "\<And>j. in_range n j \<Longrightarrow> rootv u' (Num j) = rootv u (Num j)"
  shows "uf_rel n u' = uf_rel n u"
  using assms by (auto simp: uf_rel_def)

lemma rtrancl_absorb:
  assumes sub1: "R \<subseteq> R'" and ab: "(a, b) \<in> R'" "(b, a) \<in> R'"
    and sub2: "R' \<subseteq> (R \<union> {(a, b), (b, a)})\<^sup>*"
  shows "(R' \<union> E)\<^sup>* = (R \<union> ({(a, b), (b, a)} \<union> E))\<^sup>*"
proof (rule equalityI)
  have "R \<union> {(a, b), (b, a)} \<subseteq> R \<union> ({(a, b), (b, a)} \<union> E)" by blast
  then have "(R \<union> {(a, b), (b, a)})\<^sup>* \<subseteq> (R \<union> ({(a, b), (b, a)} \<union> E))\<^sup>*"
    by (rule rtrancl_mono)
  then have 1: "R' \<subseteq> (R \<union> ({(a, b), (b, a)} \<union> E))\<^sup>*" using sub2 by (rule subset_trans [rotated])
  have 2: "E \<subseteq> (R \<union> ({(a, b), (b, a)} \<union> E))\<^sup>*" by blast
  have "R' \<union> E \<subseteq> (R \<union> ({(a, b), (b, a)} \<union> E))\<^sup>*" using 1 2 by (rule Un_least)
  then show "(R' \<union> E)\<^sup>* \<subseteq> (R \<union> ({(a, b), (b, a)} \<union> E))\<^sup>*"
    by (rule rtrancl_subset_rtrancl)
  have "R \<union> ({(a, b), (b, a)} \<union> E) \<subseteq> R' \<union> E" using sub1 ab by blast
  then show "(R \<union> ({(a, b), (b, a)} \<union> E))\<^sup>* \<subseteq> (R' \<union> E)\<^sup>*" by (rule rtrancl_mono)
qed

lemma link_rel:
  assumes a: "in_range n a" and b: "in_range n b"
    and ct: "{Some (Num c), Some (Num t)} = {rootv u (Num a), rootv u (Num b)}"
    and rv: "\<And>j. in_range n j \<Longrightarrow> rootv u' (Num j) =
               (if rootv u (Num j) = Some (Num c) then Some (Num t) else rootv u (Num j))"
  shows "uf_rel n u \<subseteq> uf_rel n u'"
    and "(a, b) \<in> uf_rel n u'" and "(b, a) \<in> uf_rel n u'"
    and "uf_rel n u' \<subseteq> (uf_rel n u \<union> {(a, b), (b, a)})\<^sup>*"
proof -
  show "uf_rel n u \<subseteq> uf_rel n u'"
    using rv by (auto simp: uf_rel_def)
  have "rootv u (Num a) = Some (Num c) \<or> rootv u (Num a) = Some (Num t)"
    "rootv u (Num b) = Some (Num c) \<or> rootv u (Num b) = Some (Num t)"
    using ct by (auto simp: doubleton_eq_iff)
  then have same: "rootv u' (Num a) = rootv u' (Num b)"
    using rv [OF a] rv [OF b] by auto
  then show "(a, b) \<in> uf_rel n u'" "(b, a) \<in> uf_rel n u'"
    using a b by (simp_all add: uf_rel_def)
  show "uf_rel n u' \<subseteq> (uf_rel n u \<union> {(a, b), (b, a)})\<^sup>*"
  proof
    fix p assume p: "p \<in> uf_rel n u'"
    obtain i j where ij: "p = (i, j)" by (cases p)
    have i: "in_range n i" and j: "in_range n j" and e: "rootv u' (Num i) = rootv u' (Num j)"
      using p ij by (simp_all add: uf_rel_def)
    let ?R = "uf_rel n u \<union> {(a, b), (b, a)}"
    have cases: "rootv u (Num i) = rootv u (Num j) \<or>
        (rootv u (Num i) = rootv u (Num a) \<and> rootv u (Num j) = rootv u (Num b)) \<or>
        (rootv u (Num i) = rootv u (Num b) \<and> rootv u (Num j) = rootv u (Num a))"
      using e ct unfolding rv [OF i] rv [OF j]
      by (auto simp: doubleton_eq_iff split: if_splits)
    have "(i, j) \<in> ?R\<^sup>*"
    proof -
      consider (eq) "rootv u (Num i) = rootv u (Num j)"
        | (ab) "rootv u (Num i) = rootv u (Num a)" "rootv u (Num j) = rootv u (Num b)"
        | (ba) "rootv u (Num i) = rootv u (Num b)" "rootv u (Num j) = rootv u (Num a)"
        using cases by blast
      then show ?thesis
      proof cases
        case eq
        then have "(i, j) \<in> ?R" using i j by (simp add: uf_rel_def)
        then show ?thesis by (rule r_into_rtrancl)
      next
        case ab
        have "(i, a) \<in> ?R" using ab(1) i a by (simp add: uf_rel_def)
        moreover have "(a, b) \<in> ?R" by simp
        moreover have "(b, j) \<in> ?R" using ab(2) j b by (simp add: uf_rel_def)
        ultimately show ?thesis
          by (meson r_into_rtrancl rtrancl_trans)
      next
        case ba
        have "(i, b) \<in> ?R" using ba(1) i b by (simp add: uf_rel_def)
        moreover have "(b, a) \<in> ?R" by simp
        moreover have "(a, j) \<in> ?R" using ba(2) j a by (simp add: uf_rel_def)
        ultimately show ?thesis
          by (meson r_into_rtrancl rtrancl_trans)
      qed
    qed
    then show "p \<in> ?R\<^sup>*" using ij by simp
  qed
qed

lemma mst_loop_size:
  assumes "uf_inv n u" "edges_in_range n es"
    and "card (roots n u) + length acc = n" and "length acc + 1 < n"
  shows "\<exists>r. mst_loop n es u acc = Some r \<and> length r + 1 \<le> n \<and>
           (length r + 1 = n \<longleftrightarrow>
              (\<forall>i j. in_range n i \<and> in_range n j \<longrightarrow> (i, j) \<in> (uf_rel n u \<union> edge_rel es)\<^sup>*))"
  using assms
proof (induction es arbitrary: u acc)
  case Nil
  have n: "0 < n" using Nil.prems(4) by simp
  have "card (roots n u) \<noteq> 1" using Nil.prems(3,4) by simp
  then obtain i j where ij: "in_range n i" "in_range n j" "rootv u (Num i) \<noteq> rootv u (Num j)"
    using one_root_iff [OF Nil.prems(1) n] by blast
  then have "(i, j) \<notin> (uf_rel n u)\<^sup>*" using uf_rel_rtrancl by blast
  then have "\<not> (\<forall>i j. in_range n i \<and> in_range n j \<longrightarrow> (i, j) \<in> (uf_rel n u \<union> edge_rel [])\<^sup>*)"
    using ij by (auto simp: edge_rel_def)
  then show ?case using Nil.prems(4) by simp
next
  case (Cons e es)
  note inv = Cons.prems(1) and cnt = Cons.prems(3) and lt = Cons.prems(4)
  have n: "0 < n" using lt by simp
  have a: "in_range n (v1 e)" and b: "in_range n (v2 e)" and rest: "edges_in_range n es"
    using Cons.prems(2) by (simp_all add: edges_in_range_def)
  obtain ra u1 where f1: "find_uf u (Num (v1 e)) = Some (Num ra, u1)"
    and rva: "rootv u (Num (v1 e)) = Some (Num ra)" and inv1: "uf_inv n u1"
    and rv1: "\<And>j. in_range n j \<Longrightarrow> rootv u1 (Num j) = rootv u (Num j)"
    and rt1: "\<And>j. in_range n j \<Longrightarrow> (par u1 j = j) = (par u j = j)"
    using find_uf_full [OF inv a] by metis
  obtain rb u2 where f2: "find_uf u1 (Num (v2 e)) = Some (Num rb, u2)"
    and rvb1: "rootv u1 (Num (v2 e)) = Some (Num rb)" and inv2: "uf_inv n u2"
    and rv2: "\<And>j. in_range n j \<Longrightarrow> rootv u2 (Num j) = rootv u1 (Num j)"
    and rt2: "\<And>j. in_range n j \<Longrightarrow> (par u2 j = j) = (par u1 j = j)"
    using find_uf_full [OF inv1 b] by metis
  have rvb: "rootv u (Num (v2 e)) = Some (Num rb)" using rvb1 rv1 [OF b] by simp
  have rv02: "rootv u2 (Num j) = rootv u (Num j)" if "in_range n j" for j
    using rv1 rv2 that by simp
  have rel2: "uf_rel n u2 = uf_rel n u" using rv02 by (rule uf_rel_cong)
  have roots2: "roots n u2 = roots n u"
    using roots_eqI [of n u2 u1] roots_eqI [of n u1 u] rt1 rt2 by simp
  show ?case
  proof (cases "ra = rb")
    case True
    have loop: "mst_loop n (e # es) u acc = mst_loop n es u2 acc"
      using True by (simp add: f1 f2 strict_eq_def)
    have "(v1 e, v2 e) \<in> uf_rel n u" "(v2 e, v1 e) \<in> uf_rel n u"
      using a b rva rvb True by (simp_all add: uf_rel_def)
    then have "uf_rel n u \<union> edge_rel (e # es) = uf_rel n u2 \<union> edge_rel es"
      unfolding rel2 edge_rel_Cons by blast
    then show ?thesis
      using Cons.IH [OF inv2 rest _ lt] cnt roots2 loop by simp
  next
    case False
    then have ne: "rootv u2 (Num (v1 e)) \<noteq> rootv u2 (Num (v2 e))"
      using rva rvb rv02 a b by simp
    obtain res u3 where U: "union_uf u2 (Num (v1 e)) (Num (v2 e)) = Some (res, u3)"
      and inv3: "uf_inv n u3" and res: "res = (rootv u2 (Num (v1 e)) \<noteq> rootv u2 (Num (v2 e)))"
      and mg: "res \<Longrightarrow> \<exists>c t. {Some (Num c), Some (Num t)} =
                  {rootv u2 (Num (v1 e)), rootv u2 (Num (v2 e))} \<and>
               c \<in> roots n u2 \<and> roots n u3 = roots n u2 - {c} \<and>
               (\<forall>j. in_range n j \<longrightarrow> rootv u3 (Num j) =
                  (if rootv u2 (Num j) = Some (Num c) then Some (Num t) else rootv u2 (Num j)))"
      using union_uf_effect [OF inv2 a b] by blast
    have "res" using res ne by simp
    then obtain c t where
      ct: "{Some (Num c), Some (Num t)} = {rootv u2 (Num (v1 e)), rootv u2 (Num (v2 e))}"
      and c: "c \<in> roots n u2" and roots3: "roots n u3 = roots n u2 - {c}"
      and rv3: "\<And>j. in_range n j \<Longrightarrow> rootv u3 (Num j) =
                  (if rootv u2 (Num j) = Some (Num c) then Some (Num t) else rootv u2 (Num j))"
      using mg by blast
    have "card (roots n u3) = card (roots n u2) - 1"
      unfolding roots3 using c by (simp add: finite_roots)
    moreover have "0 < card (roots n u2)" using c finite_roots [of n u2] by (auto simp: card_gt_0_iff)
    ultimately have cnt3: "card (roots n u3) + length (acc @ [e]) = n"
      using cnt roots2 by simp
    note L = link_rel [OF a b ct rv3]
    have eqrel: "(uf_rel n u3 \<union> edge_rel es)\<^sup>* = (uf_rel n u \<union> edge_rel (e # es))\<^sup>*"
      using rtrancl_absorb [OF L] unfolding rel2 edge_rel_Cons .
    show ?thesis
    proof (cases "int (length (acc @ [e])) = int n - 1")
      case True
      have loop: "mst_loop n (e # es) u acc = Some (acc @ [e])"
        using True False by (simp add: f1 f2 U strict_eq_def Let_def)
      have len: "length (acc @ [e]) + 1 = n" using True by simp
      then have "card (roots n u3) = 1" using cnt3 by simp
      then have all: "rootv u3 (Num i) = rootv u3 (Num j)" if "in_range n i" "in_range n j" for i j
        using one_root_iff [OF inv3 n] that by blast
      have "(i, j) \<in> (uf_rel n u \<union> edge_rel (e # es))\<^sup>*" if "in_range n i" "in_range n j" for i j
      proof -
        have "(i, j) \<in> uf_rel n u3 \<union> edge_rel es" using all [OF that] that by (simp add: uf_rel_def)
        then have "(i, j) \<in> (uf_rel n u3 \<union> edge_rel es)\<^sup>*" by (rule r_into_rtrancl)
        then show ?thesis unfolding eqrel .
      qed
      then show ?thesis using loop len by simp
    next
      case stop: False
      have loop: "mst_loop n (e # es) u acc = mst_loop n es u3 (acc @ [e])"
        using stop False by (simp add: f1 f2 U strict_eq_def Let_def)
      have lt3: "length (acc @ [e]) + 1 < n" using stop lt by simp
      show ?thesis
        using Cons.IH [OF inv3 rest cnt3 lt3] unfolding eqrel loop .
    qed
  qed
qed

lemma roots_new: "roots n (UnionFind_new n) = {0..<int n}"
  by (auto simp: roots_def par_def UnionFind_new_def)

lemma uf_rel_new: "uf_rel n (UnionFind_new n) \<subseteq> Id"
proof -
  have "rootv (UnionFind_new n) (Num i) = Some (Num i)" if "in_range n i" for i
    using that by (intro rootv_root [OF uf_inv_new])
      (simp_all add: par_def UnionFind_new_def in_range_def)
  then show ?thesis by (auto simp: uf_rel_def)
qed

lemma edge_rel_sort: "edge_rel (sort_key f es) = edge_rel es"
  by (simp add: edge_rel_def)

lemma findMST_size_aux:
  assumes rng: "edges_in_range (length (vertices g)) (edges g)"
  shows "\<exists>r. findMST g = Some r \<and> length r \<le> length (vertices g) - 1 \<and>
           (length r = length (vertices g) - 1 \<longleftrightarrow>
              connected_graph (length (vertices g)) (edges g)) \<and>
           (length (vertices g) < 2 \<longrightarrow> r = [])"
proof (cases "length (vertices g) < 2")
  case True
  have "(i, j) \<in> (edge_rel (edges g))\<^sup>*"
    if "i \<in> {0..<int (length (vertices g))}" "j \<in> {0..<int (length (vertices g))}" for i j
  proof -
    have "i = j" using that True by auto
    then show ?thesis by simp
  qed
  then have "connected_graph (length (vertices g)) (edges g)"
    by (simp add: connected_graph_def)
  then show ?thesis using True by (auto simp: findMST_def)
next
  case False
  define n where "n = length (vertices g)"
  define es where "es = sort_key weight (edges g)"
  have n2: "2 \<le> n" using False by (simp add: n_def)
  have F: "findMST g = mst_loop n es (UnionFind_new n) []"
    using False by (simp add: findMST_def n_def es_def)
  have rng': "edges_in_range n es" using rng by (simp add: edges_in_range_def n_def es_def)
  have cnt: "card (roots n (UnionFind_new n)) + length ([] :: edge list) = n"
    by (simp add: roots_new)
  have lt: "length ([] :: edge list) + 1 < n" using n2 by simp
  obtain r where r: "mst_loop n es (UnionFind_new n) [] = Some r" "length r + 1 \<le> n"
    and iff: "length r + 1 = n \<longleftrightarrow>
      (\<forall>i j. in_range n i \<and> in_range n j \<longrightarrow>
         (i, j) \<in> (uf_rel n (UnionFind_new n) \<union> edge_rel es)\<^sup>*)"
    using mst_loop_size [OF uf_inv_new rng' cnt lt] by blast
  have "(uf_rel n (UnionFind_new n) \<union> edge_rel es)\<^sup>* = (edge_rel (edges g))\<^sup>*"
  proof (rule equalityI)
    have "uf_rel n (UnionFind_new n) \<union> edge_rel es \<subseteq> (edge_rel (edges g))\<^sup>*"
      using uf_rel_new [of n] by (auto simp: es_def edge_rel_sort)
    then show "(uf_rel n (UnionFind_new n) \<union> edge_rel es)\<^sup>* \<subseteq> (edge_rel (edges g))\<^sup>*"
      by (rule rtrancl_subset_rtrancl)
    have "edge_rel (edges g) \<subseteq> uf_rel n (UnionFind_new n) \<union> edge_rel es"
      by (simp add: es_def edge_rel_sort)
    then show "(edge_rel (edges g))\<^sup>* \<subseteq> (uf_rel n (UnionFind_new n) \<union> edge_rel es)\<^sup>*"
      by (rule rtrancl_mono)
  qed
  then have "length r + 1 = n \<longleftrightarrow> connected_graph n (edges g)"
    using iff by (auto simp: connected_graph_def in_range_def)
  then show ?thesis
    using r n2 False unfolding F n_def [symmetric] by (intro exI [of _ r]) auto
qed

text \<open>
  Claim C9. On every graph whose edges join existing vertices, with \<open>n\<close> the vertex count,
  \<^verbatim>\<open>findMST\<close> returns a list of at most \<open>n - 1\<close> edges, of exactly \<open>n - 1\<close> edges if and only
  if the graph is connected, and the empty list when \<open>n < 2\<close>. (\<open>n - 1\<close> is a count: it is 0
  for the empty graph, which is connected and yields no edge.)
\<close>

theorem findMST_size:
  assumes "edges_in_range (length (vertices g)) (edges g)"
  shows "\<exists>r. findMST g = Some r \<and> length r \<le> length (vertices g) - 1 \<and>
           (length r = length (vertices g) - 1 \<longleftrightarrow>
              connected_graph (length (vertices g)) (edges g)) \<and>
           (length (vertices g) < 2 \<longrightarrow> r = [])"
  using assms by (rule findMST_size_aux)

lemma pairs_loop:
  "mst_loop 4 [\<lparr>v1 = 0, v2 = 1, weight = 100\<rparr>, \<lparr>v1 = 2, v2 = 3, weight = 100\<rparr>] (UnionFind_new 4) [] =
     Some [\<lparr>v1 = 0, v2 = 1, weight = 100\<rparr>, \<lparr>v1 = 2, v2 = 3, weight = 100\<rparr>]"
  by code_simp

lemma findMST_pairs:
  "findMST pairs_graph = Some [\<lparr>v1 = 0, v2 = 1, weight = 100\<rparr>, \<lparr>v1 = 2, v2 = 3, weight = 100\<rparr>]"
proof -
  have len: "length (vertices pairs_graph) = 4" by (simp add: pairs_graph_def)
  have srt: "sort_key weight (edges pairs_graph) =
      [\<lparr>v1 = 0, v2 = 1, weight = 100\<rparr>, \<lparr>v1 = 2, v2 = 3, weight = 100\<rparr>]"
    by (simp add: pairs_graph_def)
  have "findMST pairs_graph =
      mst_loop 4 (sort_key weight (edges pairs_graph)) (UnionFind_new 4) []"
    unfolding findMST_def len by simp
  then show ?thesis unfolding srt pairs_loop .
qed

text \<open>
  The scenario of claim C1 yields 2 = 3 - 1 edges and is therefore connected; the four
  vertices joined in two pairs yield 2 edges, not 3, and are therefore not connected.
\<close>

theorem findMST_size_witness:
  "findMST scenario_graph = Some [\<lparr>v1 = 0, v2 = 1, weight = 10\<rparr>, \<lparr>v1 = 1, v2 = 2, weight = 10\<rparr>] \<and>
   connected_graph 3 (edges scenario_graph) \<and>
   findMST pairs_graph = Some [\<lparr>v1 = 0, v2 = 1, weight = 100\<rparr>, \<lparr>v1 = 2, v2 = 3, weight = 100\<rparr>] \<and>
   \<not> connected_graph 4 (edges pairs_graph)"
proof -
  have r1: "edges_in_range (length (vertices scenario_graph)) (edges scenario_graph)"
    by (simp add: scenario_edges edges_in_range_def in_range_def)
  have r2: "edges_in_range (length (vertices pairs_graph)) (edges pairs_graph)"
    by (simp add: pairs_graph_def edges_in_range_def in_range_def)
  have l1: "length (vertices scenario_graph) = 3" by (simp add: scenario_edges)
  have l2: "length (vertices pairs_graph) = 4" by (simp add: pairs_graph_def)
  show ?thesis
    using findMST_size [OF r1] findMST_size [OF r2]
    unfolding findMST_scenario findMST_pairs l1 l2 by simp
qed

section \<open>The graphs the application builds\<close>

text \<open>
  Every edge stored by \<^verbatim>\<open>addEdge\<close> joins two existing vertices and vertices are never
  removed, so every graph the application can reach has its edges in range, \<^verbatim>\<open>findMST\<close>
  returns on it, and every event is handled to completion.
\<close>

lemma addVertex_in_range:
  assumes "edges_in_range (length (vertices g)) (edges g)"
  shows "edges_in_range (length (vertices (snd (addVertex g px py)))) (edges (snd (addVertex g px py)))"
  using assms by (auto simp: addVertex_def Let_def edges_in_range_def in_range_def)

lemma addEdge_in_range:
  assumes "edges_in_range (length (vertices g)) (edges g)"
  shows "edges_in_range (length (vertices (snd (addEdge g a b)))) (edges (snd (addEdge g a b)))"
proof (cases "fst (addEdge g a b)")
  case False
  then have "snd (addEdge g a b) = g" by (auto simp: addEdge_eq split: if_splits)
  then show ?thesis using assms by simp
next
  case True
  then have ir: "in_range (length (vertices g)) a" "in_range (length (vertices g)) b"
    by (simp_all add: addEdge_eq split: if_splits)
  obtain w where E: "edges (snd (addEdge g a b)) = edges g @ [\<lparr>v1 = min a b, v2 = max a b, weight = w\<rparr>]"
    and V: "vertices (snd (addEdge g a b)) = vertices g"
    using True by (simp add: addEdge_eq split: if_splits)
  have "in_range (length (vertices g)) (min a b)" "in_range (length (vertices g)) (max a b)"
    using ir by (simp_all add: min_def max_def)
  then show ?thesis unfolding E V using assms by (simp add: edges_in_range_def)
qed

lemma handleCanvasClick_in_range:
  assumes "edges_in_range (length (vertices (graph s))) (edges (graph s))"
  shows "edges_in_range (length (vertices (graph (handleCanvasClick s px py))))
           (edges (graph (handleCanvasClick s px py)))"
proof -
  have g: "graph (handleCanvasClick s px py) = graph s \<or>
           graph (handleCanvasClick s px py) = snd (addVertex (graph s) px py) \<or>
           (\<exists>a b. graph (handleCanvasClick s px py) = snd (addEdge (graph s) a b))"
    by (cases "mode s")
      (auto simp: handleCanvasClick_def Let_def case_prod_beta split: option.splits)
  then show ?thesis
    using assms addVertex_in_range [OF assms] addEdge_in_range [OF assms] by auto
qed

lemma step_in_range:
  assumes "edges_in_range (length (vertices (graph s))) (edges (graph s))"
  shows "\<exists>s'. step s ev = Some s' \<and>
           edges_in_range (length (vertices (graph s'))) (edges (graph s'))"
proof (cases ev)
  case (CanvasClick px py)
  then show ?thesis using handleCanvasClick_in_range [OF assms] by simp
next
  case ClickFindMST
  obtain r where "findMST (graph s) = Some r" using findMST_total [OF assms] by blast
  then show ?thesis using ClickFindMST assms by simp
next
  case ClickReset
  then show ?thesis by (simp add: Graph_new_def edges_in_range_def)
qed (use assms in simp_all)

lemma run_in_range:
  assumes "edges_in_range (length (vertices (graph s))) (edges (graph s))"
  shows "\<exists>s'. run s evs = Some s' \<and>
           edges_in_range (length (vertices (graph s'))) (edges (graph s'))"
  using assms
proof (induction evs arbitrary: s)
  case Nil
  then show ?case by simp
next
  case (Cons ev evs)
  obtain s1 where "step s ev = Some s1"
    "edges_in_range (length (vertices (graph s1))) (edges (graph s1))"
    using step_in_range [OF Cons.prems] by blast
  then show ?case using Cons.IH by simp
qed

lemma run_from_new:
  "\<exists>s'. run PipelineApp_new evs = Some s' \<and>
      edges_in_range (length (vertices (graph s'))) (edges (graph s'))"
  by (rule run_in_range) (simp add: PipelineApp_new_def Graph_new_def edges_in_range_def)

end

